theory Spec2Isabelle
  imports Main
begin

section \<open>Data model of \<open>coqide/stm.py\<close>\<close>

text \<open>
  Sentences are Python objects that the Document's sequence, its two dictionaries, the tip
  and the failed-sentence marker all reference. They are therefore kept in an explicit store:
  an address identifies the object, the store gives its fields. Python compares sentences
  by identity (\<open>list.index\<close>, \<open>list.remove\<close>), which is equality of addresses here.
\<close>

type_synonym addr = nat

type_synonym location = "(int \<times> int) option"

datatype py_error = KeyError | ValueError | IndexError | RuntimeError string

record mark =
  line :: int
  col :: int

record region =
  start :: mark
  stop :: mark
  command :: string

datatype highlight = Processing | Processed | Error location string | Axiom

record sentence =
  region :: region
  state_id :: int
  flag :: "highlight option"

type_synonym heap = "addr \<Rightarrow> sentence"

text \<open>
  Modelled from the spec: the class \<open>Sentence\<close> of \<open>sentence.py\<close> is not among the
  sources. The spec gives it a region, a state id and a highlight status
  (Processing, Processed, Error, Axiom or none) and the methods below; an object of the
  class is always true in a Python condition and equal only to itself.
\<close>

definition Sentence :: "region \<Rightarrow> int \<Rightarrow> sentence" where
  "Sentence r sid = \<lparr>region = r, state_id = sid, flag = None\<rparr>"

definition set_processing :: "sentence \<Rightarrow> sentence" where
  "set_processing s = s\<lparr>flag := Some Processing\<rparr>"

definition set_processed :: "sentence \<Rightarrow> sentence" where
  "set_processed s = s\<lparr>flag := Some Processed\<rparr>"

definition set_error :: "location \<Rightarrow> string \<Rightarrow> sentence \<Rightarrow> sentence" where
  "set_error loc msg s = s\<lparr>flag := Some (Error loc msg)\<rparr>"

definition set_axiom :: "sentence \<Rightarrow> sentence" where
  "set_axiom s = s\<lparr>flag := Some Axiom\<rparr>"

definition unhighlight :: "sentence \<Rightarrow> sentence" where
  "unhighlight s = s\<lparr>flag := None\<rparr>"

definition has_error :: "sentence \<Rightarrow> bool" where
  "has_error s = (case flag s of Some (Error loc msg) \<Rightarrow> True | _ \<Rightarrow> False)"

text \<open>\<open>range(start_line, stop_line + 1)\<close>: the lines a sentence covers.\<close>

definition sentence_lines :: "sentence \<Rightarrow> int list" where
  "sentence_lines s = [line (start (region s)) .. line (stop (region s))]"

section \<open>The class \<open>_Document\<close>\<close>

record document =
  sentences :: "addr list"
  state_id_map :: "int \<rightharpoonup> addr"
  line_map :: "int \<rightharpoonup> addr list"

definition Document_init :: document where
  "Document_init = \<lparr>sentences = [], state_id_map = Map.empty, line_map = Map.empty\<rparr>"

text \<open>\<open>list.index\<close>: the first position of an element, \<open>None\<close> for Python's ValueError.\<close>

fun index_of :: "'a \<Rightarrow> 'a list \<Rightarrow> nat option" where
  "index_of x [] = None"
| "index_of x (y # ys) = (if x = y then Some 0 else map_option Suc (index_of x ys))"

text \<open>
  Slices \<open>xs[i:j]\<close> and \<open>del xs[i:j]\<close>. Every call site passes a start \<open>i \<ge> 0\<close> and a
  stop that is absent or \<open>\<ge> 1\<close>, so both are naturals; Python clamps them to the length.
\<close>

definition slice_stop :: "'a list \<Rightarrow> nat option \<Rightarrow> nat" where
  "slice_stop xs j = (case j of None \<Rightarrow> length xs | Some k \<Rightarrow> k)"

definition py_slice :: "'a list \<Rightarrow> nat \<Rightarrow> nat option \<Rightarrow> 'a list" where
  "py_slice xs i j = take (slice_stop xs j - i) (drop i xs)"

definition del_slice :: "'a list \<Rightarrow> nat \<Rightarrow> nat option \<Rightarrow> 'a list" where
  "del_slice xs i j = take i xs @ drop (max i (slice_stop xs j)) xs"

text \<open>The loop of \<open>add\<close> over the covered lines.\<close>

fun add_lines :: "addr \<Rightarrow> int list \<Rightarrow> (int \<rightharpoonup> addr list) \<Rightarrow> (int \<rightharpoonup> addr list)" where
  "add_lines s [] lm = lm"
| "add_lines s (l # ls) lm =
     add_lines s ls (case lm l of Some ss \<Rightarrow> lm(l \<mapsto> ss @ [s]) | None \<Rightarrow> lm(l \<mapsto> [s]))"

text \<open>
  Operations mutate the Document in place, so an operation that raises leaves the Document
  as it was at the raise. Each operation returns the exception, if any, and the Document.
\<close>

definition Document_add ::
  "heap \<Rightarrow> document \<Rightarrow> addr \<Rightarrow> addr option \<Rightarrow> py_error option \<times> document" where
  "Document_add h d s tip =
     (case (case tip of
              Some t \<Rightarrow> map_option Suc (index_of t (sentences d))
            | None \<Rightarrow> Some (length (sentences d))) of
        None \<Rightarrow> (Some ValueError, d)
      | Some i \<Rightarrow>
          (None, d\<lparr>sentences := take i (sentences d) @ [s] @ drop i (sentences d),
                   state_id_map := (state_id_map d)(state_id (h s) \<mapsto> s),
                   line_map := add_lines s (sentence_lines (h s)) (line_map d)\<rparr>))"

text \<open>The inner loop of \<open>remove_by_index\<close>: \<open>self.line_map[line].remove(sentence)\<close>.\<close>

fun remove_lines ::
  "addr \<Rightarrow> int list \<Rightarrow> (int \<rightharpoonup> addr list) \<Rightarrow> py_error option \<times> (int \<rightharpoonup> addr list)" where
  "remove_lines s [] lm = (None, lm)"
| "remove_lines s (l # ls) lm =
     (case lm l of
        None \<Rightarrow> (Some KeyError, lm)
      | Some ss \<Rightarrow>
          if s \<in> set ss then remove_lines s ls (lm(l \<mapsto> remove1 s ss))
          else (Some ValueError, lm))"

text \<open>The outer loop of \<open>remove_by_index\<close>, over the sentences of the slice.\<close>

fun remove_loop :: "heap \<Rightarrow> addr list \<Rightarrow> document \<Rightarrow> py_error option \<times> document" where
  "remove_loop h [] d = (None, d)"
| "remove_loop h (s # ss) d =
     (case state_id_map d (state_id (h s)) of
        None \<Rightarrow> (Some KeyError, d)
      | Some x \<Rightarrow>
          (let d1 = d\<lparr>state_id_map := (state_id_map d)(state_id (h s) := None)\<rparr> in
           case remove_lines s (sentence_lines (h s)) (line_map d1) of
             (Some e, lm) \<Rightarrow> (Some e, d1\<lparr>line_map := lm\<rparr>)
           | (None, lm) \<Rightarrow> remove_loop h ss (d1\<lparr>line_map := lm\<rparr>)))"

definition Document_remove_by_index ::
  "heap \<Rightarrow> document \<Rightarrow> nat \<Rightarrow> nat option \<Rightarrow> py_error option \<times> document" where
  "Document_remove_by_index h d i j =
     (case remove_loop h (py_slice (sentences d) i j) d of
        (Some e, d') \<Rightarrow> (Some e, d')
      | (None, d') \<Rightarrow> (None, d'\<lparr>sentences := del_slice (sentences d') i j\<rparr>))"

definition Document_clear :: "document \<Rightarrow> document" where
  "Document_clear d = d\<lparr>sentences := [], state_id_map := Map.empty, line_map := Map.empty\<rparr>"

definition iter_covering_line :: "document \<Rightarrow> int \<Rightarrow> addr list" where
  "iter_covering_line d l = (case line_map d l of Some ss \<Rightarrow> ss | None \<Rightarrow> [])"

definition iter_starting_line :: "heap \<Rightarrow> document \<Rightarrow> int \<Rightarrow> addr list" where
  "iter_starting_line h d l =
     filter (\<lambda>s. line (start (region (h s))) = l) (iter_covering_line d l)"

text \<open>
  The loop of \<open>remove_covering_line\<close>: \<open>del self.state_id_map[...]\<close>, then
  \<open>self.sentences.remove(sentence)\<close>. It iterates over the list of the line map, which
  the body does not change.
\<close>

fun remove_covering_loop :: "heap \<Rightarrow> addr list \<Rightarrow> document \<Rightarrow> py_error option \<times> document" where
  "remove_covering_loop h [] d = (None, d)"
| "remove_covering_loop h (s # ss) d =
     (case state_id_map d (state_id (h s)) of
        None \<Rightarrow> (Some KeyError, d)
      | Some x \<Rightarrow>
          (let d1 = d\<lparr>state_id_map := (state_id_map d)(state_id (h s) := None)\<rparr> in
           if s \<in> set (sentences d1)
           then remove_covering_loop h ss (d1\<lparr>sentences := remove1 s (sentences d1)\<rparr>)
           else (Some ValueError, d1)))"

definition Document_remove_covering_line ::
  "heap \<Rightarrow> document \<Rightarrow> int \<Rightarrow> py_error option \<times> document" where
  "Document_remove_covering_line h d l =
     (case remove_covering_loop h (iter_covering_line d l) d of
        (Some e, d') \<Rightarrow> (Some e, d')
      | (None, d') \<Rightarrow>
          (case line_map d' l of
             None \<Rightarrow> (Some KeyError, d')
           | Some ss \<Rightarrow> (None, d'\<lparr>line_map := (line_map d')(l \<mapsto> [])\<rparr>)))"

definition Document_len :: "document \<Rightarrow> nat" where
  "Document_len d = length (sentences d)"

definition Document_bool :: "document \<Rightarrow> bool" where
  "Document_bool d = (sentences d \<noteq> [])"

section \<open>The protocol values\<close>

text \<open>
  Modelled from the spec: the module \<open>xmlprotocol\<close> and the module \<open>actions\<close> are not
  among the sources. The requests, the responses and the feedback payloads have the shapes
  the spec gives them: an Add response carries a new state id, an optional next state id
  and a message, or an error with a location and a message; an EditAt response carries
  \<open>focused\<close> and an optional qed state id, or an error with a location, a state id and a
  message; a feedback payload is an error message, a leveled message, processed,
  axiom-accepted, or of another kind. The sink receives messages at a severity, goals, and
  the loss of the connection of a buffer.
\<close>

datatype request =
    InitReq
  | AddReq string int "int option" bool
  | EditAtReq "int option"
  | GoalReq

datatype init_res = InitOk int | InitError string

datatype add_res = AddOk int "int option" string | AddError location string

datatype edit_at_res = EditAtOk bool "int option" | EditAtError location int string

datatype goal_res = GoalOk string | GoalError string

datatype feedback_content =
    ErrorMsg location string
  | Message string location string
  | Processed_fb
  | AddedAxiom
  | OtherContent

record feedback =
  fb_state_id :: "int option"
  content :: feedback_content

datatype action = ShowMessage string string | ShowGoals string | ConnLost int

section \<open>The class \<open>STM\<close>\<close>

text \<open>
  The tasks that the methods of the STM schedule, by the name they are scheduled under,
  each with the values its closure captures.
\<close>

datatype task =
    Task_init
  | Task_forward_one region
  | Task_backward
  | Task_backward_before_mark mark
  | Task_edit_at_current_state
  | Task_get_goals

text \<open>
  The state of an STM: its attributes, the store of the sentence objects with the next
  unused address, the queue, the counter and the semaphore of its \<open>_SequentialTaskThread\<close>,
  and the two collaborators every method is given, as logs: the actions handed to
  \<open>handle_action\<close> and the requests handed to \<open>call_async\<close>.
\<close>

record stm =
  doc :: document
  store :: heap
  next_addr :: addr
  failed_sentence :: "addr option"
  init_state_id :: "int option"
  schedule_queue :: "task list"
  scheduled_task_count :: int
  task_done :: nat
  bufnr :: int
  tip_sentence :: "addr option"
  actions :: "action list"
  sent :: "request list"

definition STM_new :: "int \<Rightarrow> stm" where
  "STM_new b =
     \<lparr>doc = Document_init, store = (\<lambda>a. Sentence \<lparr>start = \<lparr>line = 1, col = 1\<rparr>,
          stop = \<lparr>line = 1, col = 1\<rparr>, command = []\<rparr> 0),
      next_addr = 0, failed_sentence = None, init_state_id = None, schedule_queue = [],
      scheduled_task_count = 0, task_done = 0, bufnr = b, tip_sentence = None,
      actions = [], sent = []\<rparr>"

definition handle_action :: "action \<Rightarrow> stm \<Rightarrow> stm" where
  "handle_action a st = st\<lparr>actions := actions st @ [a]\<rparr>"

definition call_async :: "request \<Rightarrow> stm \<Rightarrow> stm" where
  "call_async r st = st\<lparr>sent := sent st @ [r]\<rparr>"

text \<open>
  \<open>_SequentialTaskThread\<close>: \<open>schedule\<close>, \<open>discard_scheduled_tasks\<close> and the callback
  \<open>done\<close>, which releases the semaphore that the thread waits on. The queue of the
  source holds at most 100 entries and \<open>put\<close> blocks the caller on a full queue; the
  blocking is outside this sequential model.
\<close>

definition schedule :: "task \<Rightarrow> stm \<Rightarrow> stm" where
  "schedule t st =
     st\<lparr>scheduled_task_count := scheduled_task_count st + 1,
        schedule_queue := schedule_queue st @ [t]\<rparr>"

definition discard_scheduled_tasks :: "stm \<Rightarrow> stm" where
  "discard_scheduled_tasks st =
     st\<lparr>scheduled_task_count := scheduled_task_count st - int (length (schedule_queue st)),
        schedule_queue := []\<rparr>"

definition done_cb :: "stm \<Rightarrow> stm" where
  "done_cb st = st\<lparr>task_done := task_done st + 1\<rparr>"

definition is_busy :: "stm \<Rightarrow> bool" where
  "is_busy st = (scheduled_task_count st > 0)"

text \<open>\<open>Sentence(sregion, state_id)\<close> creates an object at the next unused address.\<close>

definition new_sentence :: "region \<Rightarrow> int \<Rightarrow> stm \<Rightarrow> addr \<times> stm" where
  "new_sentence r sid st =
     (next_addr st,
      st\<lparr>store := (store st)(next_addr st := Sentence r sid), next_addr := Suc (next_addr st)\<rparr>)"

definition update_sentence :: "addr \<Rightarrow> (sentence \<Rightarrow> sentence) \<Rightarrow> stm \<Rightarrow> stm" where
  "update_sentence s f st = st\<lparr>store := (store st)(s := f (store st s))\<rparr>"

text \<open>\<open>for sentence in ...: sentence.unhighlight(handle_action)\<close>\<close>

fun unhighlight_all :: "addr list \<Rightarrow> stm \<Rightarrow> stm" where
  "unhighlight_all [] st = st"
| "unhighlight_all (s # ss) st = unhighlight_all ss (update_sentence s unhighlight st)"

definition clear_failed_sentence :: "stm \<Rightarrow> stm" where
  "clear_failed_sentence st =
     (case failed_sentence st of
        Some s \<Rightarrow> (update_sentence s unhighlight st)\<lparr>failed_sentence := None\<rparr>
      | None \<Rightarrow> st)"

definition tip_state_id :: "stm \<Rightarrow> int option" where
  "tip_state_id st =
     (case tip_sentence st of
        Some t \<Rightarrow> Some (state_id (store st t))
      | None \<Rightarrow>
          if Document_bool (doc st) then Some (state_id (store st (last (sentences (doc st)))))
          else init_state_id st)"

text \<open>\<open>self._doc and self._doc.sentences[-1].has_error()\<close>\<close>

definition last_has_error :: "stm \<Rightarrow> bool" where
  "last_has_error st =
     (Document_bool (doc st) \<and> has_error (store st (last (sentences (doc st)))))"

definition update_goal :: "stm \<Rightarrow> stm" where
  "update_goal st = schedule Task_get_goals st"

definition forward_one :: "region \<Rightarrow> stm \<Rightarrow> stm" where
  "forward_one sregion st = schedule (Task_forward_one sregion) st"

definition STM_forward :: "region \<Rightarrow> stm \<Rightarrow> stm" where
  "STM_forward sregion st =
     (if last_has_error st
      then handle_action (ShowMessage ''Fix the error first'' ''error'') st
      else update_goal (forward_one sregion st))"

definition STM_forward_many :: "region list \<Rightarrow> stm \<Rightarrow> stm" where
  "STM_forward_many sregions st =
     (if last_has_error st
      then handle_action (ShowMessage ''Fix the error first.'' ''error'') st
      else update_goal (fold forward_one sregions st))"

definition STM_backward :: "stm \<Rightarrow> stm" where
  "STM_backward st = update_goal (schedule Task_backward st)"

definition STM_backward_before_mark :: "mark \<Rightarrow> stm \<Rightarrow> stm" where
  "STM_backward_before_mark m st = update_goal (schedule (Task_backward_before_mark m) st)"

definition STM_init :: "stm \<Rightarrow> stm" where
  "STM_init st = schedule Task_init st"

text \<open>The task of \<open>init\<close> and its response handler, which calls \<open>done\<close> on every exit.\<close>

definition init_task :: "stm \<Rightarrow> stm" where
  "init_task st = call_async InitReq st"

definition init_on_res :: "init_res \<Rightarrow> stm \<Rightarrow> py_error option \<times> stm" where
  "init_on_res res st =
     (case res of
        InitOk sid \<Rightarrow> (None, done_cb (st\<lparr>init_state_id := Some sid\<rparr>))
      | InitError msg \<Rightarrow> (Some (RuntimeError msg), done_cb st))"

text \<open>The task of \<open>_forward_one\<close>: it sends the Add request.\<close>

definition forward_one_task :: "region \<Rightarrow> stm \<Rightarrow> stm" where
  "forward_one_task sregion st =
     (let st1 = clear_failed_sentence st
      in call_async (AddReq (command sregion) (- 1) (tip_state_id st1) False) st1)"

text \<open>\<open>if res.next_state_id:\<close> is false for an absent id and for the id 0.\<close>

definition truthy :: "int option \<Rightarrow> bool" where
  "truthy x = (case x of None \<Rightarrow> False | Some n \<Rightarrow> n \<noteq> 0)"

text \<open>
  The response handler of \<open>_forward_one\<close>, before the \<open>done\<close> that its decorator adds.
  It returns the exception, if any, with the state as the raise left it.
\<close>

definition forward_one_on_res_body :: "region \<Rightarrow> add_res \<Rightarrow> stm \<Rightarrow> py_error option \<times> stm" where
  "forward_one_on_res_body sregion res st =
     (case res of
        AddOk new_sid next_sid msg \<Rightarrow>
          (case new_sentence sregion new_sid st of
             (s, st1) \<Rightarrow>
               (case Document_add (store st1) (doc st1) s (tip_sentence st1) of
                  (Some e, d') \<Rightarrow> (Some e, st1\<lparr>doc := d'\<rparr>)
                | (None, d') \<Rightarrow>
                    (let st2 = update_sentence s set_processing (st1\<lparr>doc := d'\<rparr>);
                         st3 = handle_action (ShowMessage msg ''info'') st2
                     in if truthy next_sid
                        then (case state_id_map (doc st3) (the next_sid) of
                                None \<Rightarrow> (Some KeyError, st3)
                              | Some t \<Rightarrow> (None, st3\<lparr>tip_sentence := Some t\<rparr>))
                        else (None, st3\<lparr>tip_sentence := None\<rparr>))))
      | AddError loc msg \<Rightarrow>
          (case new_sentence sregion 0 (discard_scheduled_tasks st) of
             (s, st1) \<Rightarrow>
               (None, update_sentence s (set_error loc msg) (st1\<lparr>failed_sentence := Some s\<rparr>))))"

definition forward_one_on_res :: "region \<Rightarrow> add_res \<Rightarrow> stm \<Rightarrow> py_error option \<times> stm" where
  "forward_one_on_res sregion res st =
     (case forward_one_on_res_body sregion res st of (e, st') \<Rightarrow> (e, done_cb st'))"

text \<open>
  What a call of \<open>_backward_before_index\<close> or of its response handler ends in: an
  exception, the call of \<open>done\<close>, or an EditAt request in flight whose handler holds the
  given index.
\<close>

datatype outcome = Raised py_error | Done | Pending nat

text \<open>
  \<open>_backward_before_index(index, ...)\<close> up to its \<open>call_async\<close>. The index is never
  negative: the callers pass a length, a position, or a position plus one.
\<close>

definition backward_before_index :: "nat \<Rightarrow> stm \<Rightarrow> outcome \<times> stm" where
  "backward_before_index index st =
     (if index = 0
      then (Pending index, call_async (EditAtReq (init_state_id st)) (clear_failed_sentence st))
      else if index - 1 < length (sentences (doc st))
      then (Pending index,
            call_async (EditAtReq (Some (state_id (store st (sentences (doc st) ! (index - 1))))))
              (clear_failed_sentence st))
      else (Raised IndexError, st))"

text \<open>\<open>xs[i]\<close> for an integer that may be negative, as \<open>self._doc.sentences[index - 1]\<close> is.\<close>

definition py_nth :: "'a list \<Rightarrow> int \<Rightarrow> 'a option" where
  "py_nth xs i =
     (let n = int (length xs); k = (if i < 0 then n + i else i)
      in if 0 \<le> k \<and> k < n then Some (xs ! nat k) else None)"

text \<open>The response handler \<open>on_res\<close> of \<open>_backward_before_index\<close>; \<open>index\<close> is captured.\<close>

definition backward_before_index_on_res :: "nat \<Rightarrow> edit_at_res \<Rightarrow> stm \<Rightarrow> outcome \<times> stm" where
  "backward_before_index_on_res index res st =
     (case res of
        EditAtOk focused qed \<Rightarrow>
          if \<not> focused then
            (let st1 = unhighlight_all (py_slice (sentences (doc st)) index None) st
             in case Document_remove_by_index (store st1) (doc st1) index None of
                  (Some e, d') \<Rightarrow> (Raised e, st1\<lparr>doc := d'\<rparr>)
                | (None, d') \<Rightarrow> (Done, done_cb (st1\<lparr>doc := d', tip_sentence := None\<rparr>)))
          else
            (case (case qed of None \<Rightarrow> None | Some q \<Rightarrow> state_id_map (doc st) q) of
               None \<Rightarrow> (Raised KeyError, st)
             | Some qed_sentence \<Rightarrow>
                 (case index_of qed_sentence (sentences (doc st)) of
                    None \<Rightarrow> (Raised ValueError, st)
                  | Some qed_index \<Rightarrow>
                      (let st1 = unhighlight_all
                                   (py_slice (sentences (doc st)) index (Some (qed_index + 1))) st
                       in case Document_remove_by_index (store st1) (doc st1) index
                                 (Some (qed_index + 1)) of
                            (Some e, d') \<Rightarrow> (Raised e, st1\<lparr>doc := d'\<rparr>)
                          | (None, d') \<Rightarrow>
                              (case py_nth (sentences d') (int index - 1) of
                                 None \<Rightarrow> (Raised IndexError, st1\<lparr>doc := d'\<rparr>)
                               | Some t \<Rightarrow>
                                   (Done, done_cb (st1\<lparr>doc := d', tip_sentence := Some t\<rparr>))))))
      | EditAtError loc sid msg \<Rightarrow>
          (let st1 = handle_action (ShowMessage msg ''error'') st
           in case state_id_map (doc st1) sid of
                None \<Rightarrow> (Raised KeyError, st1)
              | Some s \<Rightarrow>
                  (case index_of s (sentences (doc st1)) of
                     None \<Rightarrow> (Raised ValueError, st1)
                   | Some sindex \<Rightarrow> backward_before_index (sindex + 1) st1)))"

text \<open>
  The chain of retries: the handler is run on the responses of the external process, one
  after another, as long as it leaves a request in flight. The result lists the indices
  of the retried calls.
\<close>

fun edit_at_chain :: "nat \<Rightarrow> edit_at_res list \<Rightarrow> stm \<Rightarrow> nat list \<times> outcome \<times> stm" where
  "edit_at_chain index [] st = ([], Pending index, st)"
| "edit_at_chain index (r # rs) st =
     (case backward_before_index_on_res index r st of
        (Pending i, st') \<Rightarrow>
          (case edit_at_chain i rs st' of (is, out, st'') \<Rightarrow> (i # is, out, st''))
      | (Raised e, st') \<Rightarrow> ([], Raised e, st')
      | (Done, st') \<Rightarrow> ([], Done, st'))"

text \<open>The tasks of \<open>backward\<close>, \<open>backward_before_mark\<close> and \<open>_edit_at_current_state\<close>.\<close>

definition backward_task :: "stm \<Rightarrow> outcome \<times> stm" where
  "backward_task st =
     (if Document_bool (doc st)
      then backward_before_index (length (sentences (doc st)) - 1) st
      else (Done, done_cb st))"

fun find_after_mark :: "heap \<Rightarrow> mark \<Rightarrow> nat \<Rightarrow> addr list \<Rightarrow> nat option" where
  "find_after_mark h m i [] = None"
| "find_after_mark h m i (s # ss) =
     (let stop = stop (region (h s))
      in if line stop > line m \<or> (line stop = line m \<and> col stop > col m) then Some i
         else find_after_mark h m (Suc i) ss)"

definition backward_before_mark_task :: "mark \<Rightarrow> stm \<Rightarrow> outcome \<times> stm" where
  "backward_before_mark_task m st =
     (case find_after_mark (store st) m 0 (sentences (doc st)) of
        Some i \<Rightarrow> backward_before_index i st
      | None \<Rightarrow> (Done, done_cb st))"

definition edit_at_current_state_task :: "stm \<Rightarrow> outcome \<times> stm" where
  "edit_at_current_state_task st = backward_before_index (Document_len (doc st)) st"

text \<open>The task of \<open>_update_goal\<close> and its response handler.\<close>

definition update_goal_task :: "stm \<Rightarrow> stm" where
  "update_goal_task st = call_async GoalReq st"

definition update_goal_on_res :: "goal_res \<Rightarrow> stm \<Rightarrow> stm" where
  "update_goal_on_res res st =
     done_cb (case res of GoalOk goals \<Rightarrow> handle_action (ShowGoals goals) st | GoalError msg \<Rightarrow> st)"

text \<open>The callback that \<open>_make_on_lost_cb\<close> returns, with the \<open>done\<close> of its decorator.\<close>

definition on_lost_cb :: "stm \<Rightarrow> stm" where
  "on_lost_cb st =
     (let st1 = discard_scheduled_tasks st;
          st2 = unhighlight_all (sentences (doc st1)) st1;
          st3 = st2\<lparr>doc := Document_clear (doc st2)\<rparr>;
          st4 = handle_action (ConnLost (bufnr st3)) st3
      in done_cb st4)"

definition get_last_stop :: "stm \<Rightarrow> mark" where
  "get_last_stop st =
     (if Document_bool (doc st) then stop (region (store st (last (sentences (doc st)))))
      else \<lparr>line = 1, col = 1\<rparr>)"

definition get_tip_stop :: "stm \<Rightarrow> mark" where
  "get_tip_stop st =
     (case tip_sentence st of
        Some t \<Rightarrow> stop (region (store st t))
      | None \<Rightarrow> get_last_stop st)"

section \<open>The class \<open>_FeedbackHandler\<close>\<close>

text \<open>
  The handler reads the state-id dictionary of the Document of its STM; \<open>sentence\<close> is the
  result of \<open>self._state_id_map.get(feedback.state_id, None)\<close>.
\<close>

definition on_error_msg :: "location \<Rightarrow> string \<Rightarrow> addr option \<Rightarrow> stm \<Rightarrow> stm" where
  "on_error_msg loc msg sentence st =
     (case sentence of
        Some s \<Rightarrow> update_sentence s (set_error loc msg) st
      | None \<Rightarrow> handle_action (ShowMessage msg ''error'') st)"

definition on_message :: "string \<Rightarrow> location \<Rightarrow> string \<Rightarrow> addr option \<Rightarrow> stm \<Rightarrow> stm" where
  "on_message level loc msg sentence st =
     (if level = ''error''
      then (case sentence of
              Some s \<Rightarrow> update_sentence s (set_error loc msg) st
            | None \<Rightarrow> handle_action (ShowMessage msg ''error'') st)
      else handle_action (ShowMessage msg level) st)"

definition on_processed :: "addr option \<Rightarrow> stm \<Rightarrow> stm" where
  "on_processed sentence st =
     (case sentence of Some s \<Rightarrow> update_sentence s set_processed st | None \<Rightarrow> st)"

definition on_added_axiom :: "addr option \<Rightarrow> stm \<Rightarrow> stm" where
  "on_added_axiom sentence st =
     (case sentence of Some s \<Rightarrow> update_sentence s set_axiom st | None \<Rightarrow> st)"

definition FeedbackHandler_call :: "feedback \<Rightarrow> stm \<Rightarrow> bool \<times> stm" where
  "FeedbackHandler_call fb st =
     (let sentence = (case fb_state_id fb of None \<Rightarrow> None | Some k \<Rightarrow> state_id_map (doc st) k)
      in case content fb of
           ErrorMsg loc msg \<Rightarrow> (True, on_error_msg loc msg sentence st)
         | Message level loc msg \<Rightarrow> (True, on_message level loc msg sentence st)
         | Processed_fb \<Rightarrow> (True, on_processed sentence st)
         | AddedAxiom \<Rightarrow> (True, on_added_axiom sentence st)
         | OtherContent \<Rightarrow> (False, st))"

section \<open>Well-formed Documents\<close>

text \<open>
  A sentence covers the lines of its region. A Document is well formed when its sequence
  holds no object twice, its state-id dictionary is exactly the sentences of the sequence
  under their own state ids, and its line dictionary lists, for a line it knows, exactly the
  sentences of the sequence that cover the line, each once, and knows every covered line.
\<close>

definition covers :: "heap \<Rightarrow> addr \<Rightarrow> int \<Rightarrow> bool" where
  "covers h s l = (l \<in> set (sentence_lines (h s)))"

definition sm_inv :: "heap \<Rightarrow> addr set \<Rightarrow> (int \<rightharpoonup> addr) \<Rightarrow> bool" where
  "sm_inv h S sm =
     ((\<forall>s\<in>S. sm (state_id (h s)) = Some s) \<and>
      (\<forall>k s. sm k = Some s \<longrightarrow> s \<in> S \<and> state_id (h s) = k))"

definition lm_inv :: "heap \<Rightarrow> addr set \<Rightarrow> (int \<rightharpoonup> addr list) \<Rightarrow> bool" where
  "lm_inv h S lm =
     ((\<forall>l ss. lm l = Some ss \<longrightarrow> distinct ss \<and> set ss = {s \<in> S. covers h s l}) \<and>
      (\<forall>s\<in>S. \<forall>l. covers h s l \<longrightarrow> lm l \<noteq> None))"

definition doc_inv :: "heap \<Rightarrow> document \<Rightarrow> bool" where
  "doc_inv h d =
     (distinct (sentences d) \<and>
      sm_inv h (set (sentences d)) (state_id_map d) \<and>
      lm_inv h (set (sentences d)) (line_map d))"

text \<open>
  The Documents that \<open>add\<close>, \<open>remove_by_index\<close> and \<open>clear\<close> produce from the empty
  one, when every added sentence has a state id that is not a key of the dictionary. The
  region and the state id of a sentence object never change, so the store \<open>h\<close> is fixed; an
  operation that raises contributes the Document as the raise left it.
\<close>

inductive reachable :: "heap \<Rightarrow> document \<Rightarrow> bool" for h :: heap where
  reachable_init: "reachable h Document_init"
| reachable_add:
    "reachable h d \<Longrightarrow> state_id (h s) \<notin> dom (state_id_map d) \<Longrightarrow>
     reachable h (snd (Document_add h d s tip))"
| reachable_remove:
    "reachable h d \<Longrightarrow> reachable h (snd (Document_remove_by_index h d i j))"
| reachable_clear: "reachable h d \<Longrightarrow> reachable h (Document_clear d)"

text \<open>A store for examples: object \<open>a\<close> spans the lines \<open>a\<close> to \<open>a + 1\<close> and has state id \<open>a + 2\<close>.\<close>

definition example_heap :: heap where
  "example_heap a =
     Sentence \<lparr>start = \<lparr>line = int a, col = 1\<rparr>, stop = \<lparr>line = int a + 1, col = 5\<rparr>,
               command = ''Proof.''\<rparr> (int a + 2)"

definition example_doc :: document where
  "example_doc =
     snd (Document_add example_heap (snd (Document_add example_heap Document_init 0 None)) 1 (Some 0))"


section \<open>Well-formed states of the STM\<close>

text \<open>
  In a well-formed state the Document is well formed for the store, and every sentence of
  the sequence was created before: its address is below the next unused one.
\<close>

definition stm_inv :: "stm \<Rightarrow> bool" where
  "stm_inv st =
     (doc_inv (store st) (doc st) \<and> (\<forall>s\<in>set (sentences (doc st)). s < next_addr st))"

text \<open>The sentence that a feedback refers to, as the handler looks it up.\<close>

definition fb_sentence :: "feedback \<Rightarrow> stm \<Rightarrow> addr option" where
  "fb_sentence fb st = (case fb_state_id fb of None \<Rightarrow> None | Some k \<Rightarrow> state_id_map (doc st) k)"

section \<open>Chains of EditAt errors\<close>

text \<open>
  A chain of responses meets the precondition of the retries when every error, as long as
  no success came before it, reports a state id that the dictionary maps to a sentence of
  the sequence at a position strictly before the predecessor of the index of the call it
  answers. \<open>reported_positions\<close> lists those positions.
\<close>

fun is_error :: "edit_at_res \<Rightarrow> bool" where
  "is_error (EditAtOk focused qed) = False"
| "is_error (EditAtError loc sid msg) = True"

fun valid_reports :: "document \<Rightarrow> nat \<Rightarrow> edit_at_res list \<Rightarrow> bool" where
  "valid_reports d index [] = True"
| "valid_reports d index (EditAtOk focused qed # rs) = True"
| "valid_reports d index (EditAtError loc sid msg # rs) =
     (case state_id_map d sid of
        None \<Rightarrow> False
      | Some s \<Rightarrow>
          (case index_of s (sentences d) of
             None \<Rightarrow> False
           | Some p \<Rightarrow> p + 1 < index \<and> valid_reports d (p + 1) rs))"

fun reported_positions :: "document \<Rightarrow> edit_at_res list \<Rightarrow> nat list" where
  "reported_positions d [] = []"
| "reported_positions d (EditAtOk focused qed # rs) = []"
| "reported_positions d (EditAtError loc sid msg # rs) =
     (case state_id_map d sid of
        None \<Rightarrow> []
      | Some s \<Rightarrow>
          (case index_of s (sentences d) of
             None \<Rightarrow> []
           | Some p \<Rightarrow> p # reported_positions d rs))"

section \<open>Example runs\<close>

text \<open>
  Four regions and the states of a run: Init answered with state id 1, three sentences
  added with the state ids 2, 3 and 4, an error feedback for the first sentence, and a
  rollback before position 1 that the external process answers as focused with qed
  state id 3.
\<close>

definition regionA :: region where
  "regionA = \<lparr>start = \<lparr>line = 1, col = 1\<rparr>, stop = \<lparr>line = 1, col = 9\<rparr>, command = ''Lemma a.''\<rparr>"

definition regionB :: region where
  "regionB = \<lparr>start = \<lparr>line = 2, col = 1\<rparr>, stop = \<lparr>line = 3, col = 7\<rparr>, command = ''Proof.''\<rparr>"

definition regionC :: region where
  "regionC = \<lparr>start = \<lparr>line = 3, col = 8\<rparr>, stop = \<lparr>line = 4, col = 5\<rparr>, command = ''Qed.''\<rparr>"

definition regionD :: region where
  "regionD = \<lparr>start = \<lparr>line = 5, col = 1\<rparr>, stop = \<lparr>line = 5, col = 6\<rparr>, command = ''auto.''\<rparr>"

definition stm_ready :: stm where
  "stm_ready = snd (init_on_res (InitOk 1) (init_task (STM_new 7)))"

definition add_ok :: "region \<Rightarrow> int \<Rightarrow> int option \<Rightarrow> stm \<Rightarrow> stm" where
  "add_ok r new next st = snd (forward_one_on_res r (AddOk new next ''ok'') (forward_one_task r st))"

definition stm_A :: stm where
  "stm_A = add_ok regionA 2 None stm_ready"

definition stm_AB :: stm where
  "stm_AB = add_ok regionB 3 None stm_A"

definition stm_ABC :: stm where
  "stm_ABC = add_ok regionC 4 None stm_AB"

definition stm_A_err :: stm where
  "stm_A_err = snd (FeedbackHandler_call \<lparr>fb_state_id = Some 2, content = ErrorMsg None ''boom''\<rparr> stm_A)"

definition stm_focused :: stm where
  "stm_focused = snd (backward_before_index_on_res 1 (EditAtOk True (Some 3)) (snd (backward_before_index 1 stm_ABC)))"

text \<open>
  A focused rollback before position 0 of the three sentences, with the given qed state id;
  and a sentence added with state id 5 after the focused rollback before position 1.
\<close>

definition rollback_zero :: "int \<Rightarrow> outcome \<times> stm" where
  "rollback_zero q =
     backward_before_index_on_res 0 (EditAtOk True (Some q)) (snd (backward_before_index 0 stm_ABC))"

definition add_after_focused :: "py_error option \<times> stm" where
  "add_after_focused =
     forward_one_on_res regionD (AddOk 5 None ''ok'') (forward_one_task regionD stm_focused)"

section \<open>Properties of the Document\<close>

lemma sm_invD1: "sm_inv h S sm \<Longrightarrow> s \<in> S \<Longrightarrow> sm (state_id (h s)) = Some s"
  unfolding sm_inv_def by blast

lemma sm_invD2: "sm_inv h S sm \<Longrightarrow> sm k = Some s \<Longrightarrow> s \<in> S \<and> state_id (h s) = k"
  unfolding sm_inv_def by blast

lemma lm_invD1: "lm_inv h S lm \<Longrightarrow> lm l = Some ss \<Longrightarrow> distinct ss \<and> set ss = {s \<in> S. covers h s l}"
  unfolding lm_inv_def by blast

lemma lm_invD2: "lm_inv h S lm \<Longrightarrow> s \<in> S \<Longrightarrow> covers h s l \<Longrightarrow> \<exists>ss. lm l = Some ss"
  unfolding lm_inv_def by blast

lemma index_of_None: "index_of x xs = None \<longleftrightarrow> x \<notin> set xs"
  by (induction xs) auto

lemma index_of_Some: "index_of x xs = Some i \<Longrightarrow> i < length xs \<and> xs ! i = x"
  by (induction xs arbitrary: i) (auto split: if_splits)

lemma index_of_nth: "distinct xs \<Longrightarrow> i < length xs \<Longrightarrow> index_of (xs ! i) xs = Some i"
proof (induction xs arbitrary: i)
  case Nil
  then show ?case by simp
next
  case (Cons y ys)
  then show ?case by (cases i) auto
qed

lemma add_lines_apply:
  "distinct ls \<Longrightarrow>
   add_lines s ls lm l =
     (if l \<in> set ls then Some ((case lm l of None \<Rightarrow> [] | Some ss \<Rightarrow> ss) @ [s]) else lm l)"
  by (induction ls arbitrary: lm) (auto split: option.splits)

lemma remove_lines_ok:
  "distinct ls \<Longrightarrow> \<forall>l\<in>set ls. \<exists>ss. lm l = Some ss \<and> s \<in> set ss \<Longrightarrow>
   remove_lines s ls lm =
     (None, \<lambda>l. if l \<in> set ls then map_option (remove1 s) (lm l) else lm l)"
proof (induction ls arbitrary: lm)
  case Nil
  then show ?case by simp
next
  case (Cons a ls)
  from Cons.prems obtain ss where ss: "lm a = Some ss" "s \<in> set ss" by auto
  have "remove_lines s ls (lm(a \<mapsto> remove1 s ss)) =
      (None, \<lambda>l. if l \<in> set ls then map_option (remove1 s) ((lm(a \<mapsto> remove1 s ss)) l)
                  else (lm(a \<mapsto> remove1 s ss)) l)"
    using Cons.prems by (intro Cons.IH) auto
  then show ?case using ss Cons.prems by (auto simp: fun_eq_iff)
qed

lemma distinct_sentence_lines: "distinct (sentence_lines x)"
  by (simp add: sentence_lines_def)

lemma sm_inv_fresh: "sm_inv h S sm \<Longrightarrow> state_id (h s) \<notin> dom sm \<Longrightarrow> s \<notin> S"
  using sm_invD1 by fastforce

lemma sm_inv_add:
  assumes inv: "sm_inv h S sm" and fresh: "state_id (h s) \<notin> dom sm"
  shows "sm_inv h (insert s S) (sm(state_id (h s) \<mapsto> s))"
  unfolding sm_inv_def
proof (intro conjI ballI allI impI)
  fix x assume "x \<in> insert s S"
  then consider "x = s" | "x \<in> S" by auto
  then show "(sm(state_id (h s) \<mapsto> s)) (state_id (h x)) = Some x"
  proof cases
    case 1
    then show ?thesis by simp
  next
    case 2
    then have "sm (state_id (h x)) = Some x" using inv by (rule sm_invD1 [rotated])
    moreover from this have "state_id (h x) \<noteq> state_id (h s)" using fresh by auto
    ultimately show ?thesis by simp
  qed
next
  fix k x assume a: "(sm(state_id (h s) \<mapsto> s)) k = Some x"
  show "x \<in> insert s S"
  proof (cases "k = state_id (h s)")
    case True
    with a show ?thesis by simp
  next
    case False
    with a have "sm k = Some x" by simp
    with inv show ?thesis by (auto dest: sm_invD2)
  qed
  show "state_id (h x) = k"
  proof (cases "k = state_id (h s)")
    case True
    with a show ?thesis by simp
  next
    case False
    with a have "sm k = Some x" by simp
    with inv show ?thesis by (auto dest: sm_invD2)
  qed
qed

lemma sm_inv_remove:
  assumes inv: "sm_inv h S sm" and sS: "s \<in> S"
  shows "sm_inv h (S - {s}) (sm(state_id (h s) := None))"
  unfolding sm_inv_def
proof (intro conjI ballI allI impI)
  fix x assume x: "x \<in> S - {s}"
  then have 1: "sm (state_id (h x)) = Some x" using inv by (auto dest: sm_invD1)
  have 2: "sm (state_id (h s)) = Some s" using inv sS by (rule sm_invD1)
  have "state_id (h x) \<noteq> state_id (h s)" using 1 2 x by auto
  then show "(sm(state_id (h s) := None)) (state_id (h x)) = Some x" using 1 by simp
next
  fix k x assume a: "(sm(state_id (h s) := None)) k = Some x"
  then have k: "k \<noteq> state_id (h s)" and 1: "sm k = Some x" by (auto split: if_splits)
  from inv 1 have 2: "x \<in> S \<and> state_id (h x) = k" by (rule sm_invD2)
  then show "state_id (h x) = k" by simp
  from 2 k show "x \<in> S - {s}" by auto
qed

lemma lm_inv_add:
  assumes inv: "lm_inv h S lm" and sS: "s \<notin> S"
  shows "lm_inv h (insert s S) (add_lines s (sentence_lines (h s)) lm)"
  unfolding lm_inv_def
proof (intro conjI)
  show "\<forall>l ss. add_lines s (sentence_lines (h s)) lm l = Some ss \<longrightarrow>
          distinct ss \<and> set ss = {x \<in> insert s S. covers h x l}"
  proof (intro allI impI)
    fix l ss assume a: "add_lines s (sentence_lines (h s)) lm l = Some ss"
    show "distinct ss \<and> set ss = {x \<in> insert s S. covers h x l}"
    proof (cases "covers h s l")
      case False
      then have "lm l = Some ss"
        using a by (simp add: add_lines_apply distinct_sentence_lines covers_def)
      with inv have "distinct ss \<and> set ss = {x \<in> S. covers h x l}" by (rule lm_invD1)
      with False show ?thesis by auto
    next
      case True
      then have ss: "ss = (case lm l of None \<Rightarrow> [] | Some ss \<Rightarrow> ss) @ [s]"
        using a by (simp add: add_lines_apply distinct_sentence_lines covers_def)
      show ?thesis
      proof (cases "lm l")
        case None
        have "{x \<in> S. covers h x l} = {}"
        proof (rule ccontr)
          assume "{x \<in> S. covers h x l} \<noteq> {}"
          then obtain x where "x \<in> S" "covers h x l" by auto
          with inv have "\<exists>ss. lm l = Some ss" by (rule lm_invD2)
          with None show False by simp
        qed
        with None ss True show ?thesis by auto
      next
        case (Some ss0)
        with inv have "distinct ss0 \<and> set ss0 = {x \<in> S. covers h x l}" by (rule lm_invD1)
        with Some ss True sS show ?thesis by auto
      qed
    qed
  qed
next
  show "\<forall>x\<in>insert s S. \<forall>l. covers h x l \<longrightarrow> add_lines s (sentence_lines (h s)) lm l \<noteq> None"
  proof (intro ballI allI impI)
    fix x l assume x: "x \<in> insert s S" and c: "covers h x l"
    show "add_lines s (sentence_lines (h s)) lm l \<noteq> None"
    proof (cases "covers h s l")
      case True
      then show ?thesis by (simp add: add_lines_apply distinct_sentence_lines covers_def)
    next
      case False
      with x c have "x \<in> S" by auto
      with inv have "\<exists>ss. lm l = Some ss" using c by (rule lm_invD2)
      with False show ?thesis by (simp add: add_lines_apply distinct_sentence_lines covers_def)
    qed
  qed
qed

lemma lm_inv_remove:
  assumes inv: "lm_inv h S lm" and sS: "s \<in> S"
  shows "\<exists>lm'. remove_lines s (sentence_lines (h s)) lm = (None, lm') \<and> lm_inv h (S - {s}) lm'"
proof -
  let ?ls = "sentence_lines (h s)"
  let ?lm = "\<lambda>l. if l \<in> set ?ls then map_option (remove1 s) (lm l) else lm l"
  have pre: "\<forall>l\<in>set ?ls. \<exists>ss. lm l = Some ss \<and> s \<in> set ss"
  proof
    fix l assume l: "l \<in> set ?ls"
    then have c: "covers h s l" by (simp add: covers_def)
    with inv sS obtain ss where ss: "lm l = Some ss" by (blast dest: lm_invD2)
    with inv have "set ss = {x \<in> S. covers h x l}" by (blast dest: lm_invD1)
    with sS c ss show "\<exists>ss. lm l = Some ss \<and> s \<in> set ss" by auto
  qed
  have eq: "remove_lines s ?ls lm = (None, ?lm)"
    using distinct_sentence_lines pre by (rule remove_lines_ok)
  have c: "\<forall>l ss. ?lm l = Some ss \<longrightarrow> distinct ss \<and> set ss = {x \<in> S - {s}. covers h x l}"
  proof (intro allI impI)
    fix l ss assume h1: "?lm l = Some ss"
    show "distinct ss \<and> set ss = {x \<in> S - {s}. covers h x l}"
    proof (cases "l \<in> set ?ls")
      case True
      with h1 obtain ss0 where ss0: "lm l = Some ss0" "ss = remove1 s ss0" by auto
      with inv have "distinct ss0 \<and> set ss0 = {x \<in> S. covers h x l}" by (blast dest: lm_invD1)
      then show ?thesis using ss0 by auto
    next
      case False
      with h1 have "lm l = Some ss" by simp
      with inv have "distinct ss \<and> set ss = {x \<in> S. covers h x l}" by (blast dest: lm_invD1)
      moreover have "\<not> covers h s l" using False by (simp add: covers_def)
      ultimately show ?thesis by auto
    qed
  qed
  have d: "\<forall>x\<in>S - {s}. \<forall>l. covers h x l \<longrightarrow> ?lm l \<noteq> None"
  proof (intro ballI allI impI)
    fix x l assume "x \<in> S - {s}" "covers h x l"
    with inv have "\<exists>ss. lm l = Some ss" by (blast dest: lm_invD2)
    then show "?lm l \<noteq> None" by auto
  qed
  have "lm_inv h (S - {s}) ?lm"
    unfolding lm_inv_def using c d by blast
  with eq show ?thesis by blast
qed

lemma remove_loop_ok:
  "distinct rs \<Longrightarrow> set rs \<subseteq> S \<Longrightarrow> sm_inv h S (state_id_map d) \<Longrightarrow> lm_inv h S (line_map d) \<Longrightarrow>
   \<exists>d'. remove_loop h rs d = (None, d') \<and> sentences d' = sentences d \<and>
        sm_inv h (S - set rs) (state_id_map d') \<and> lm_inv h (S - set rs) (line_map d')"
proof (induction rs arbitrary: S d)
  case Nil
  then show ?case by simp
next
  case (Cons s rs)
  have sS: "s \<in> S" using Cons.prems by simp
  from lm_inv_remove [OF Cons.prems(4) sS] obtain lm' where
    lm': "remove_lines s (sentence_lines (h s)) (line_map d) = (None, lm')"
    "lm_inv h (S - {s}) lm'" by blast
  have sm': "sm_inv h (S - {s}) ((state_id_map d)(state_id (h s) := None))"
    using Cons.prems(3) sS by (rule sm_inv_remove)
  have look: "state_id_map d (state_id (h s)) = Some s"
    using Cons.prems(3) sS by (rule sm_invD1)
  define d2 where "d2 = d\<lparr>state_id_map := (state_id_map d)(state_id (h s) := None), line_map := lm'\<rparr>"
  have d2: "state_id_map d2 = (state_id_map d)(state_id (h s) := None)" "line_map d2 = lm'"
    "sentences d2 = sentences d" by (simp_all add: d2_def)
  have "\<exists>d'. remove_loop h rs d2 = (None, d') \<and> sentences d' = sentences d2 \<and>
        sm_inv h ((S - {s}) - set rs) (state_id_map d') \<and>
        lm_inv h ((S - {s}) - set rs) (line_map d')"
  proof (rule Cons.IH)
    show "distinct rs" using Cons.prems by simp
    show "set rs \<subseteq> S - {s}" using Cons.prems by auto
    show "sm_inv h (S - {s}) (state_id_map d2)" using sm' d2 by simp
    show "lm_inv h (S - {s}) (line_map d2)" using lm' d2 by simp
  qed
  then obtain d' where d': "remove_loop h rs d2 = (None, d')" "sentences d' = sentences d"
     "sm_inv h ((S - {s}) - set rs) (state_id_map d')"
     "lm_inv h ((S - {s}) - set rs) (line_map d')" using d2 by auto
  have S: "S - {s} - set rs = S - set (s # rs)" by auto
  have "remove_loop h (s # rs) d = remove_loop h rs d2"
    using look lm' by (simp add: Let_def d2_def)
  with d' show ?case unfolding S by simp
qed

lemma slice_decomp:
  "xs = take i xs @ py_slice xs i j @ drop (max i (slice_stop xs j)) xs"
proof -
  let ?k = "slice_stop xs j"
  have "drop (?k - i) (drop i xs) = drop (max i ?k) xs"
    by (simp add: max_def)
  then have "drop i xs = take (?k - i) (drop i xs) @ drop (max i ?k) xs"
    by (metis append_take_drop_id)
  then show ?thesis unfolding py_slice_def by (metis append_take_drop_id)
qed

lemma distinct_app3: "distinct (A @ B @ C) \<Longrightarrow> distinct (A @ C) \<and> set (A @ C) = set (A @ B @ C) - set B"
  by auto

lemma del_slice_props:
  assumes "distinct xs"
  shows "distinct (del_slice xs i j) \<and> set (del_slice xs i j) = set xs - set (py_slice xs i j)"
proof -
  have "distinct (take i xs @ py_slice xs i j @ drop (max i (slice_stop xs j)) xs)"
    using assms slice_decomp [of xs i j] by simp
  from distinct_app3 [OF this] show ?thesis
    using slice_decomp [of xs i j] by (simp add: del_slice_def)
qed

lemma set_py_slice: "set (py_slice xs i j) \<subseteq> set xs"
  unfolding py_slice_def by (meson set_drop_subset set_take_subset subset_trans)

lemma distinct_py_slice: "distinct xs \<Longrightarrow> distinct (py_slice xs i j)"
  unfolding py_slice_def by simp

lemma remove_by_index_ok:
  assumes "doc_inv h d"
  shows "\<exists>d'. Document_remove_by_index h d i j = (None, d') \<and> doc_inv h d' \<and>
              sentences d' = del_slice (sentences d) i j"
proof -
  let ?rs = "py_slice (sentences d) i j"
  have dx: "distinct (sentences d)" using assms by (simp add: doc_inv_def)
  have "\<exists>d'. remove_loop h ?rs d = (None, d') \<and> sentences d' = sentences d \<and>
        sm_inv h (set (sentences d) - set ?rs) (state_id_map d') \<and>
        lm_inv h (set (sentences d) - set ?rs) (line_map d')"
    using assms dx by (intro remove_loop_ok) (simp_all add: doc_inv_def set_py_slice distinct_py_slice)
  then obtain d1 where
    d1: "remove_loop h ?rs d = (None, d1)" "sentences d1 = sentences d"
      "sm_inv h (set (sentences d) - set ?rs) (state_id_map d1)"
      "lm_inv h (set (sentences d) - set ?rs) (line_map d1)" by blast
  have "doc_inv h (d1\<lparr>sentences := del_slice (sentences d1) i j\<rparr>)"
    using d1 del_slice_props [OF dx, of i j] by (simp add: doc_inv_def)
  then show ?thesis using d1 by (simp add: Document_remove_by_index_def)
qed

lemma doc_inv_init: "doc_inv h Document_init"
  by (simp add: doc_inv_def sm_inv_def lm_inv_def Document_init_def)

lemma doc_inv_clear: "doc_inv h (Document_clear d)"
  by (simp add: doc_inv_def sm_inv_def lm_inv_def Document_clear_def)

lemma insert_props:
  assumes "distinct xs" "s \<notin> set xs"
  shows "distinct (take i xs @ [s] @ drop i xs) \<and> set (take i xs @ [s] @ drop i xs) = insert s (set xs)"
proof -
  obtain A B where ab: "xs = A @ B" "take i xs = A" "drop i xs = B"
    by (metis append_take_drop_id)
  have "distinct (A @ [s] @ B) \<and> set (A @ [s] @ B) = insert s (set (A @ B))"
    using assms unfolding ab(1) by auto
  then show ?thesis using ab by simp
qed

lemma doc_inv_add_ok:
  assumes inv: "doc_inv h d" and fresh: "state_id (h s) \<notin> dom (state_id_map d)"
    and i: "i \<le> length (sentences d)"
  shows "doc_inv h (d\<lparr>sentences := take i (sentences d) @ [s] @ drop i (sentences d),
                   state_id_map := (state_id_map d)(state_id (h s) \<mapsto> s),
                   line_map := add_lines s (sentence_lines (h s)) (line_map d)\<rparr>)"
proof -
  have sS: "s \<notin> set (sentences d)"
    using inv fresh unfolding doc_inv_def by (blast dest: sm_inv_fresh)
  have dx: "distinct (sentences d)" using inv by (simp add: doc_inv_def)
  note ip = insert_props [OF dx sS, of i]
  have 1: "sm_inv h (insert s (set (sentences d))) ((state_id_map d)(state_id (h s) \<mapsto> s))"
    using inv fresh unfolding doc_inv_def by (blast intro: sm_inv_add)
  have 2: "lm_inv h (insert s (set (sentences d))) (add_lines s (sentence_lines (h s)) (line_map d))"
    using inv sS unfolding doc_inv_def by (blast intro: lm_inv_add)
  show ?thesis unfolding doc_inv_def using ip 1 2 by (simp del: set_append distinct_append)
qed

lemma doc_inv_add:
  assumes inv: "doc_inv h d" and fresh: "state_id (h s) \<notin> dom (state_id_map d)"
  shows "doc_inv h (snd (Document_add h d s tip))"
proof (cases "case tip of Some t \<Rightarrow> map_option Suc (index_of t (sentences d))
                 | None \<Rightarrow> Some (length (sentences d))")
  case None
  then show ?thesis using inv by (simp add: Document_add_def)
next
  case (Some i)
  then have "i \<le> length (sentences d)"
    by (auto split: option.splits dest!: index_of_Some)
  from doc_inv_add_ok [OF inv fresh this] Some show ?thesis
    by (simp add: Document_add_def)
qed

lemma doc_inv_card:
  assumes "doc_inv h d"
  shows "card (dom (state_id_map d)) = length (sentences d)"
proof -
  let ?S = "set (sentences d)"
  have m: "sm_inv h ?S (state_id_map d)" and dx: "distinct (sentences d)"
    using assms by (simp_all add: doc_inv_def)
  have "dom (state_id_map d) = (\<lambda>s. state_id (h s)) ` ?S"
  proof (intro set_eqI iffI)
    fix k assume "k \<in> dom (state_id_map d)"
    then obtain s where "state_id_map d k = Some s" by auto
    with m have "s \<in> ?S \<and> state_id (h s) = k" by (rule sm_invD2)
    then show "k \<in> (\<lambda>s. state_id (h s)) ` ?S" by auto
  next
    fix k assume "k \<in> (\<lambda>s. state_id (h s)) ` ?S"
    then obtain s where "s \<in> ?S" "k = state_id (h s)" by auto
    with m show "k \<in> dom (state_id_map d)" by (auto dest: sm_invD1)
  qed
  moreover have "inj_on (\<lambda>s. state_id (h s)) ?S"
  proof (rule inj_onI)
    fix x y assume "x \<in> ?S" "y \<in> ?S" "state_id (h x) = state_id (h y)"
    with m have "Some x = Some y" by (metis sm_invD1)
    then show "x = y" by simp
  qed
  ultimately have "card (dom (state_id_map d)) = card ?S" by (simp add: card_image)
  then show ?thesis using dx by (simp add: distinct_card)
qed


lemma reachable_doc_inv: "reachable h d \<Longrightarrow> doc_inv h d"
proof (induction rule: reachable.induct)
  case reachable_init
  show ?case by (rule doc_inv_init)
next
  case (reachable_add d s tip)
  then show ?case by (simp add: doc_inv_add)
next
  case (reachable_remove d i j)
  from remove_by_index_ok [OF reachable_remove.IH, of i j] show ?case by auto
next
  case (reachable_clear d)
  show ?case by (rule doc_inv_clear)
qed

lemma remove_by_index_never_raises:
  "reachable h d \<Longrightarrow> fst (Document_remove_by_index h d i j) = None"
  using remove_by_index_ok [OF reachable_doc_inv, of h d i j] by auto

text \<open>
  Claim C1. In every Document reachable from the empty one by \<open>add\<close>,
  \<open>remove_by_index\<close> and \<open>clear\<close>, where each added sentence has a state id that is not
  yet a key, the state-id dictionary has as many entries as the sequence has sentences, and
  every sentence of the sequence is found in the dictionary under its own state id. The
  Documents left behind by an operation that raised are among the reachable ones.
\<close>

theorem document_coherence:
  "reachable h d \<Longrightarrow>
   card (dom (state_id_map d)) = length (sentences d) \<and>
   (\<forall>s\<in>set (sentences d). state_id_map d (state_id (h s)) = Some s)"
proof -
  assume "reachable h d"
  then have inv: "doc_inv h d" by (rule reachable_doc_inv)
  then have "card (dom (state_id_map d)) = length (sentences d)" by (rule doc_inv_card)
  moreover have "\<forall>s\<in>set (sentences d). state_id_map d (state_id (h s)) = Some s"
    using inv unfolding doc_inv_def by (blast dest: sm_invD1)
  ultimately show ?thesis by simp
qed

lemma example_doc_sentences: "sentences example_doc = [0, 1]"
  by (simp add: example_doc_def Document_add_def Document_init_def)

lemma example_doc_reachable: "reachable example_heap example_doc"
  unfolding example_doc_def
  by (intro reachable_add reachable_init)
     (simp_all add: Document_add_def Document_init_def example_heap_def Sentence_def)

theorem document_coherence_witness:
  "card (dom (state_id_map example_doc)) = 2 \<and>
   state_id_map example_doc (state_id (example_heap 1)) = Some 1"
  using document_coherence [OF example_doc_reachable]
  by (simp add: example_doc_sentences)


lemma remove_covering_line_unknown_line:
  "line_map d l = None \<Longrightarrow> Document_remove_covering_line h d l = (Some KeyError, d)"
  by (simp add: Document_remove_covering_line_def iter_covering_line_def)




section \<open>Properties of the STM\<close>

subsection \<open>Helpers\<close>

lemma unhighlight_all_eq:
  "unhighlight_all ss st =
     st\<lparr>store := (\<lambda>a. if a \<in> set ss then unhighlight (store st a) else store st a)\<rparr>"
proof (induction ss arbitrary: st)
  case Nil
  show ?case by simp
next
  case (Cons s ss)
  show ?case
    by (simp add: Cons.IH update_sentence_def unhighlight_def fun_eq_iff)
qed

lemma doc_clear_failed_sentence: "doc (clear_failed_sentence st) = doc st"
  by (simp add: clear_failed_sentence_def update_sentence_def split: option.splits)

lemma on_error_step:
  assumes "state_id_map (doc st) sid = Some s" and "index_of s (sentences (doc st)) = Some p"
  shows "\<exists>st'. backward_before_index_on_res index (EditAtError loc sid msg) st =
                 (Pending (p + 1), st') \<and> doc st' = doc st"
proof -
  have "p < length (sentences (doc st))" using assms(2) by (auto dest: index_of_Some)
  then show ?thesis using assms
    by (simp add: backward_before_index_on_res_def backward_before_index_def Let_def
        handle_action_def call_async_def doc_clear_failed_sentence)
qed

lemma on_ok_not_pending:
  "fst (backward_before_index_on_res index (EditAtOk focused qed) st) \<noteq> Pending i"
  by (auto simp: backward_before_index_on_res_def Let_def split: option.splits prod.splits)

lemma edit_at_chain_ok:
  "edit_at_chain index (EditAtOk focused qed # rs) st =
     ([], backward_before_index_on_res index (EditAtOk focused qed) st)"
proof -
  obtain out st' where r: "backward_before_index_on_res index (EditAtOk focused qed) st = (out, st')"
    by (cases "backward_before_index_on_res index (EditAtOk focused qed) st") auto
  have "\<And>i. out \<noteq> Pending i"
    using on_ok_not_pending [of index focused "qed" st] r by simp
  then show ?thesis using r by (cases out) auto
qed

lemma chain_indices:
  "valid_reports (doc st) index rs \<Longrightarrow>
   fst (edit_at_chain index rs st) = map Suc (reported_positions (doc st) rs)"
proof (induction rs arbitrary: index st)
  case Nil
  show ?case by simp
next
  case (Cons r rs)
  show ?case
  proof (cases r)
    case (EditAtOk focused q)
    then show ?thesis by (simp add: edit_at_chain_ok del: edit_at_chain.simps)
  next
    case (EditAtError loc sid msg)
    with Cons.prems obtain s p where sp: "state_id_map (doc st) sid = Some s"
      "index_of s (sentences (doc st)) = Some p" "valid_reports (doc st) (p + 1) rs"
      by (auto split: option.splits)
    from on_error_step [OF sp(1,2), of index loc msg] obtain st' where
      st': "backward_before_index_on_res index (EditAtError loc sid msg) st = (Pending (p + 1), st')"
      "doc st' = doc st" by blast
    have "fst (edit_at_chain (p + 1) rs st') = map Suc (reported_positions (doc st') rs)"
      using sp(3) st'(2) by (intro Cons.IH) simp
    moreover obtain ts out st'' where c: "edit_at_chain (p + 1) rs st' = (ts, out, st'')"
      by (cases "edit_at_chain (p + 1) rs st'") auto
    ultimately show ?thesis using EditAtError sp st' by simp
  qed
qed

lemma chain_all_errors:
  "valid_reports (doc st) index rs \<Longrightarrow> list_all is_error rs \<Longrightarrow>
   length (fst (edit_at_chain index rs st)) = length rs \<and>
   fst (snd (edit_at_chain index rs st)) = Pending (last (index # fst (edit_at_chain index rs st)))"
proof (induction rs arbitrary: index st)
  case Nil
  show ?case by simp
next
  case (Cons r rs)
  from Cons.prems(2) obtain loc sid msg where r: "r = EditAtError loc sid msg"
    by (cases r) auto
  with Cons.prems obtain s p where sp: "state_id_map (doc st) sid = Some s"
    "index_of s (sentences (doc st)) = Some p" "valid_reports (doc st) (p + 1) rs"
    by (auto split: option.splits)
  from on_error_step [OF sp(1,2), of index loc msg] obtain st' where
    st': "backward_before_index_on_res index (EditAtError loc sid msg) st = (Pending (p + 1), st')"
    "doc st' = doc st" by blast
  have "length (fst (edit_at_chain (p + 1) rs st')) = length rs \<and>
        fst (snd (edit_at_chain (p + 1) rs st')) =
          Pending (last ((p + 1) # fst (edit_at_chain (p + 1) rs st')))"
    using sp(3) st'(2) Cons.prems(2) by (intro Cons.IH) simp_all
  moreover obtain ts out st'' where c: "edit_at_chain (p + 1) rs st' = (ts, out, st'')"
    by (cases "edit_at_chain (p + 1) rs st'") auto
  ultimately show ?case using r st' by (cases ts) auto
qed

lemma targets_bounds:
  "valid_reports d index rs \<Longrightarrow>
   \<forall>t\<in>set (map Suc (reported_positions d rs)). 0 < t \<and> t < index \<and> t \<le> length (sentences d)"
proof (induction rs arbitrary: index)
  case Nil
  show ?case by simp
next
  case (Cons r rs)
  show ?case
  proof (cases r)
    case (EditAtOk focused q)
    then show ?thesis by simp
  next
    case (EditAtError loc sid msg)
    with Cons.prems obtain s p where sp: "state_id_map d sid = Some s"
      "index_of s (sentences d) = Some p" "p + 1 < index" "valid_reports d (p + 1) rs"
      by (auto split: option.splits)
    have p: "p < length (sentences d)" using sp(2) by (auto dest: index_of_Some)
    from Cons.IH [OF sp(4)] have
      "\<forall>t\<in>set (map Suc (reported_positions d rs)). 0 < t \<and> t < p + 1 \<and> t \<le> length (sentences d)" .
    then show ?thesis using EditAtError sp p by auto
  qed
qed

lemma targets_distinct:
  "valid_reports d index rs \<Longrightarrow> distinct (map Suc (reported_positions d rs))"
proof (induction rs arbitrary: index)
  case Nil
  show ?case by simp
next
  case (Cons r rs)
  show ?case
  proof (cases r)
    case (EditAtOk focused q)
    then show ?thesis by simp
  next
    case (EditAtError loc sid msg)
    with Cons.prems obtain s p where sp: "state_id_map d sid = Some s"
      "index_of s (sentences d) = Some p" "p + 1 < index" "valid_reports d (p + 1) rs"
      by (auto split: option.splits)
    from targets_bounds [OF sp(4)] have "Suc p \<notin> set (map Suc (reported_positions d rs))"
      by auto
    moreover from Cons.IH [OF sp(4)] have "distinct (map Suc (reported_positions d rs))" .
    ultimately show ?thesis using EditAtError sp by simp
  qed
qed

lemma bounded_distinct_length:
  assumes "distinct ts" and "\<forall>t\<in>set ts. 0 < t \<and> t \<le> (n::nat)"
  shows "length ts \<le> n"
proof -
  have "set ts \<subseteq> {1..n}" using assms(2) by auto
  then have "card (set ts) \<le> card {1..n}" by (intro card_mono) auto
  then show ?thesis using assms(1) by (simp add: distinct_card)
qed

lemma doc_inv_cong:
  assumes inv: "doc_inv h d"
    and eq: "\<forall>s\<in>set (sentences d). region (h' s) = region (h s) \<and> state_id (h' s) = state_id (h s)"
  shows "doc_inv h' d"
proof -
  have c: "\<And>s l. s \<in> set (sentences d) \<Longrightarrow> covers h' s l = covers h s l"
    using eq by (simp add: covers_def sentence_lines_def)
  have sm: "sm_inv h (set (sentences d)) (state_id_map d)"
    and lm: "lm_inv h (set (sentences d)) (line_map d)"
    using inv by (simp_all add: doc_inv_def)
  have sm': "sm_inv h' (set (sentences d)) (state_id_map d)"
    unfolding sm_inv_def
  proof (intro conjI ballI allI impI)
    fix s assume "s \<in> set (sentences d)"
    then show "state_id_map d (state_id (h' s)) = Some s"
      using sm eq by (simp add: sm_invD1)
  next
    fix k s assume a: "state_id_map d k = Some s"
    with sm have b: "s \<in> set (sentences d) \<and> state_id (h s) = k" by (rule sm_invD2)
    then show "s \<in> set (sentences d)" by simp
    from b eq show "state_id (h' s) = k" by simp
  qed
  have ceq: "\<And>l. {s \<in> set (sentences d). covers h' s l} = {s \<in> set (sentences d). covers h s l}"
    using c by auto
  have lm': "lm_inv h' (set (sentences d)) (line_map d)"
    unfolding lm_inv_def
  proof (intro conjI)
    show "\<forall>l ss. line_map d l = Some ss \<longrightarrow>
            distinct ss \<and> set ss = {s \<in> set (sentences d). covers h' s l}"
      using lm ceq by (auto dest: lm_invD1)
    show "\<forall>s\<in>set (sentences d). \<forall>l. covers h' s l \<longrightarrow> line_map d l \<noteq> None"
      using lm c by (auto dest: lm_invD2)
  qed
  show ?thesis using inv sm' lm' by (simp add: doc_inv_def)
qed

lemma index_of_last:
  assumes "distinct xs" "xs \<noteq> []"
  shows "index_of (last xs) xs = Some (length xs - 1)"
  using index_of_nth [OF assms(1), of "length xs - 1"] assms(2)
  by (simp add: last_conv_nth)

lemma tip_state_id_clear_failed_sentence:
  "tip_state_id (clear_failed_sentence st) = tip_state_id st"
  by (simp add: tip_state_id_def clear_failed_sentence_def update_sentence_def unhighlight_def
      split: option.splits)

lemma sent_forward_one_task:
  "sent (forward_one_task r st) = sent st @ [AddReq (command r) (- 1) (tip_state_id st) False]"
  by (simp add: forward_one_task_def Let_def call_async_def tip_state_id_clear_failed_sentence)
     (simp add: clear_failed_sentence_def update_sentence_def split: option.splits)

lemma forward_ok_shape:
  assumes ok: "forward_one_on_res sregion (AddOk new_sid next_sid msg) st = (None, st')"
  shows "\<exists>i. (case tip_sentence st of
               Some t \<Rightarrow> map_option Suc (index_of t (sentences (doc st)))
             | None \<Rightarrow> Some (length (sentences (doc st)))) = Some i \<and>
          sentences (doc st') =
            take i (sentences (doc st)) @ [next_addr st] @ drop i (sentences (doc st)) \<and>
          state_id_map (doc st') = (state_id_map (doc st))(new_sid \<mapsto> next_addr st) \<and>
          store st' = (store st)(next_addr st :=
            \<lparr>region = sregion, state_id = new_sid, flag = Some Processing\<rparr>) \<and>
          init_state_id st' = init_state_id st \<and>
          (truthy next_sid \<longrightarrow>
             (\<exists>t. tip_sentence st' = Some t \<and> state_id_map (doc st') (the next_sid) = Some t)) \<and>
          (\<not> truthy next_sid \<longrightarrow> tip_sentence st' = None)"
  using ok
  by (auto simp: forward_one_on_res_def forward_one_on_res_body_def new_sentence_def
      Document_add_def update_sentence_def handle_action_def done_cb_def Sentence_def
      set_processing_def Let_def split: option.splits prod.splits if_splits)

lemma stm_inv_cong:
  assumes inv: "stm_inv st" and d: "doc st' = doc st" and n: "next_addr st \<le> next_addr st'"
    and h: "\<forall>s\<in>set (sentences (doc st)). region (store st' s) = region (store st s) \<and>
              state_id (store st' s) = state_id (store st s)"
  shows "stm_inv st'"
proof -
  have "doc_inv (store st) (doc st)" using inv by (simp add: stm_inv_def)
  then have "doc_inv (store st') (doc st)" using h by (rule doc_inv_cong)
  moreover have "\<forall>s\<in>set (sentences (doc st)). s < next_addr st'"
    using inv n by (auto simp: stm_inv_def)
  ultimately show ?thesis using d by (simp add: stm_inv_def)
qed

lemma stm_inv_new: "stm_inv (STM_new b)"
  by (simp add: stm_inv_def STM_new_def doc_inv_init) (simp add: Document_init_def)

lemma stm_inv_unhighlight_all: "stm_inv st \<Longrightarrow> stm_inv (unhighlight_all ss st)"
  by (erule stm_inv_cong) (simp_all add: unhighlight_all_eq unhighlight_def)

lemma stm_inv_update_sentence:
  assumes "stm_inv st" and "\<And>x. region (f x) = region x \<and> state_id (f x) = state_id x"
  shows "stm_inv (update_sentence s f st)"
  using assms(1) by (rule stm_inv_cong) (simp_all add: update_sentence_def assms(2))

lemma stm_inv_clear_failed_sentence: "stm_inv st \<Longrightarrow> stm_inv (clear_failed_sentence st)"
  by (erule stm_inv_cong)
     (simp_all add: clear_failed_sentence_def update_sentence_def unhighlight_def
       split: option.splits)

lemma stm_inv_fields:
  "stm_inv st \<Longrightarrow> stm_inv (st\<lparr>actions := a\<rparr>)"
  "stm_inv st \<Longrightarrow> stm_inv (st\<lparr>sent := r\<rparr>)"
  "stm_inv st \<Longrightarrow> stm_inv (st\<lparr>tip_sentence := t\<rparr>)"
  "stm_inv st \<Longrightarrow> stm_inv (st\<lparr>task_done := k\<rparr>)"
  "stm_inv st \<Longrightarrow> stm_inv (st\<lparr>failed_sentence := fs\<rparr>)"
  "stm_inv st \<Longrightarrow> stm_inv (st\<lparr>init_state_id := i\<rparr>)"
  "stm_inv st \<Longrightarrow> stm_inv (st\<lparr>schedule_queue := qu\<rparr>)"
  "stm_inv st \<Longrightarrow> stm_inv (st\<lparr>scheduled_task_count := c\<rparr>)"
  by (simp_all add: stm_inv_def)

lemma stm_inv_simple:
  "stm_inv st \<Longrightarrow> stm_inv (handle_action a st)"
  "stm_inv st \<Longrightarrow> stm_inv (call_async r st)"
  "stm_inv st \<Longrightarrow> stm_inv (done_cb st)"
  "stm_inv st \<Longrightarrow> stm_inv (schedule t st)"
  "stm_inv st \<Longrightarrow> stm_inv (discard_scheduled_tasks st)"
  by (simp_all add: stm_inv_def handle_action_def call_async_def done_cb_def schedule_def
      discard_scheduled_tasks_def)

lemma stm_inv_new_sentence:
  assumes inv: "stm_inv st"
  shows "stm_inv (snd (new_sentence r sid st))"
proof -
  have "next_addr st \<notin> set (sentences (doc st))" using inv by (auto simp: stm_inv_def)
  then show ?thesis using inv
    by (intro stm_inv_cong [OF inv]) (auto simp: new_sentence_def)
qed

lemma stm_inv_remove_by_index:
  assumes inv: "stm_inv st"
  shows "\<exists>d'. Document_remove_by_index (store st) (doc st) i j = (None, d') \<and>
           sentences d' = del_slice (sentences (doc st)) i j \<and> stm_inv (st\<lparr>doc := d'\<rparr>)"
proof -
  have di: "doc_inv (store st) (doc st)" and dx: "distinct (sentences (doc st))"
    using inv by (simp_all add: stm_inv_def doc_inv_def)
  from remove_by_index_ok [OF di, of i j] obtain d' where
    d': "Document_remove_by_index (store st) (doc st) i j = (None, d')" "doc_inv (store st) d'"
      "sentences d' = del_slice (sentences (doc st)) i j" by blast
  have "set (sentences d') \<subseteq> set (sentences (doc st))"
    using d'(3) del_slice_props [OF dx, of i j] by auto
  then have "stm_inv (st\<lparr>doc := d'\<rparr>)" using inv d'(2) by (auto simp: stm_inv_def)
  with d' show ?thesis by blast
qed

lemma stm_inv_backward_before_index:
  "stm_inv st \<Longrightarrow> stm_inv (snd (backward_before_index index st))"
  by (simp add: backward_before_index_def stm_inv_simple stm_inv_clear_failed_sentence)

lemma stm_inv_lookup:
  assumes "stm_inv st" and "state_id_map (doc st) k = Some s"
  shows "s \<in> set (sentences (doc st)) \<and> state_id (store st s) = k \<and>
         (\<exists>p. index_of s (sentences (doc st)) = Some p \<and> p < length (sentences (doc st)))"
proof -
  have sm: "sm_inv (store st) (set (sentences (doc st))) (state_id_map (doc st))"
    using assms(1) by (simp add: stm_inv_def doc_inv_def)
  from sm assms(2) have a: "s \<in> set (sentences (doc st)) \<and> state_id (store st s) = k"
    by (rule sm_invD2)
  then obtain p where p: "index_of s (sentences (doc st)) = Some p"
    by (cases "index_of s (sentences (doc st))") (auto simp: index_of_None)
  with a index_of_Some [OF p] show ?thesis by simp
qed

lemma doc_unhighlight_all: "doc (unhighlight_all ss st) = doc st"
  by (simp add: unhighlight_all_eq)

lemma on_res_error_ok:
  assumes inv: "stm_inv st" and k: "state_id_map (doc st) sid = Some s"
  shows "\<exists>p. index_of s (sentences (doc st)) = Some p \<and>
             fst (backward_before_index_on_res index (EditAtError loc sid msg) st) = Pending (p + 1)"
proof -
  from stm_inv_lookup [OF inv k] obtain p where
    p: "index_of s (sentences (doc st)) = Some p" by blast
  from on_error_step [OF k p, of index loc msg] p show ?thesis by auto
qed

lemma on_res_focused_ok:
  assumes inv: "stm_inv st" and k: "state_id_map (doc st) q = Some s"
  shows "\<exists>qi d'. index_of s (sentences (doc st)) = Some qi \<and>
           Document_remove_by_index (store (unhighlight_all (py_slice (sentences (doc st)) index (Some (Suc qi))) st))
             (doc st) index (Some (Suc qi)) = (None, d') \<and>
           sentences d' = del_slice (sentences (doc st)) index (Some (Suc qi)) \<and>
           backward_before_index_on_res index (EditAtOk True (Some q)) st =
             (case py_nth (sentences d') (int index - 1) of
                None \<Rightarrow> (Raised IndexError,
                  (unhighlight_all (py_slice (sentences (doc st)) index (Some (Suc qi))) st)\<lparr>doc := d'\<rparr>)
              | Some t \<Rightarrow> (Done, done_cb
                  ((unhighlight_all (py_slice (sentences (doc st)) index (Some (Suc qi))) st)
                     \<lparr>doc := d', tip_sentence := Some t\<rparr>)))"
proof -
  from stm_inv_lookup [OF inv k] obtain qi where
    qi: "index_of s (sentences (doc st)) = Some qi" by blast
  let ?st1 = "unhighlight_all (py_slice (sentences (doc st)) index (Some (Suc qi))) st"
  have inv1: "stm_inv ?st1" using inv by (rule stm_inv_unhighlight_all)
  from stm_inv_remove_by_index [OF inv1, of index "Some (Suc qi)"] obtain d' where
    d': "Document_remove_by_index (store ?st1) (doc st) index (Some (Suc qi)) = (None, d')"
      "sentences d' = del_slice (sentences (doc st)) index (Some (Suc qi))"
    by (auto simp: doc_unhighlight_all)
  have "backward_before_index_on_res index (EditAtOk True (Some q)) st =
             (case py_nth (sentences d') (int index - 1) of
                None \<Rightarrow> (Raised IndexError, ?st1\<lparr>doc := d'\<rparr>)
              | Some t \<Rightarrow> (Done, done_cb (?st1\<lparr>doc := d', tip_sentence := Some t\<rparr>)))"
    using k qi d'(1)
    by (simp add: backward_before_index_on_res_def Let_def doc_unhighlight_all)
  with qi d' show ?thesis by blast
qed

lemma add_lookup_ok:
  assumes n: "n \<noteq> 0"
    and tip: "case tip_sentence st of None \<Rightarrow> True | Some t \<Rightarrow> t \<in> set (sentences (doc st))"
  shows "fst (forward_one_on_res sregion (AddOk new_sid (Some n) msg) st) =
           (if n = new_sid \<or> n \<in> dom (state_id_map (doc st)) then None else Some KeyError)"
proof -
  have "\<exists>i. (case tip_sentence st of
               Some t \<Rightarrow> map_option Suc (index_of t (sentences (doc st)))
             | None \<Rightarrow> Some (length (sentences (doc st)))) = Some i"
  proof (cases "tip_sentence st")
    case None
    then show ?thesis by simp
  next
    case (Some t)
    with tip have "t \<in> set (sentences (doc st))" by simp
    then have "index_of t (sentences (doc st)) \<noteq> None" by (simp add: index_of_None)
    with Some show ?thesis by auto
  qed
  then obtain i where i: "(case tip_sentence st of
               Some t \<Rightarrow> map_option Suc (index_of t (sentences (doc st)))
             | None \<Rightarrow> Some (length (sentences (doc st)))) = Some i" by blast
  show ?thesis using n i
    by (auto simp: forward_one_on_res_def forward_one_on_res_body_def new_sentence_def
      Document_add_def update_sentence_def handle_action_def done_cb_def Sentence_def
      set_processing_def truthy_def Let_def split: option.splits)
qed

lemma focused_rollback_postcondition:
  assumes inv: "stm_inv st" and k: "state_id_map (doc st) q = Some s"
    and qi: "index_of s (sentences (doc st)) = Some qi"
    and pos: "0 < index" and le: "index \<le> qi"
  shows "\<exists>st'. backward_before_index_on_res index (EditAtOk True (Some q)) st = (Done, st') \<and>
           sentences (doc st') = take index (sentences (doc st)) @ drop (Suc qi) (sentences (doc st)) \<and>
           tip_sentence st' = Some (sentences (doc st) ! (index - 1)) \<and>
           (\<forall>a\<in>set (py_slice (sentences (doc st)) index (Some (Suc qi))).
              flag (store st' a) = None \<and> a \<notin> set (sentences (doc st'))) \<and>
           (\<forall>a. a \<notin> set (py_slice (sentences (doc st)) index (Some (Suc qi))) \<longrightarrow>
              store st' a = store st a) \<and>
           task_done st' = task_done st + 1"
proof -
  let ?xs = "sentences (doc st)"
  let ?st1 = "unhighlight_all (py_slice ?xs index (Some (Suc qi))) st"
  have qlen: "qi < length ?xs" using qi by (auto dest: index_of_Some)
  have dx: "distinct ?xs" using inv by (simp add: stm_inv_def doc_inv_def)
  from on_res_focused_ok [OF inv k, of index] qi obtain d' where
    d': "sentences d' = del_slice ?xs index (Some (Suc qi))"
    and r: "backward_before_index_on_res index (EditAtOk True (Some q)) st =
             (case py_nth (sentences d') (int index - 1) of
                None \<Rightarrow> (Raised IndexError, ?st1\<lparr>doc := d'\<rparr>)
              | Some t \<Rightarrow> (Done, done_cb (?st1\<lparr>doc := d', tip_sentence := Some t\<rparr>)))"
    by auto
  have xs': "sentences d' = take index ?xs @ drop (Suc qi) ?xs"
    using d' le by (simp add: del_slice_def slice_stop_def max_def)
  have nth: "py_nth (sentences d') (int index - 1) = Some (?xs ! (index - 1))"
    using pos le qlen xs' by (simp add: py_nth_def Let_def nth_append nat_diff_distrib)
  let ?st' = "done_cb (?st1\<lparr>doc := d', tip_sentence := Some (?xs ! (index - 1))\<rparr>)"
  have res: "backward_before_index_on_res index (EditAtOk True (Some q)) st = (Done, ?st')"
    using r nth by simp
  have gone: "\<forall>a\<in>set (py_slice ?xs index (Some (Suc qi))). a \<notin> set (sentences d')"
    using del_slice_props [OF dx, of index "Some (Suc qi)"] d' by auto
  have "sentences (doc ?st') = take index ?xs @ drop (Suc qi) ?xs \<and>
           tip_sentence ?st' = Some (?xs ! (index - 1)) \<and>
           (\<forall>a\<in>set (py_slice ?xs index (Some (Suc qi))).
              flag (store ?st' a) = None \<and> a \<notin> set (sentences (doc ?st'))) \<and>
           (\<forall>a. a \<notin> set (py_slice ?xs index (Some (Suc qi))) \<longrightarrow>
              store ?st' a = store st a) \<and>
           task_done ?st' = task_done st + 1"
    using xs' gone by (simp add: done_cb_def unhighlight_all_eq unhighlight_def)
  with res show ?thesis by blast
qed

lemma set_Document_add:
  "set (sentences (snd (Document_add h d s tip))) \<subseteq> insert s (set (sentences d))"
proof (cases "case tip of Some t \<Rightarrow> map_option Suc (index_of t (sentences d))
                 | None \<Rightarrow> Some (length (sentences d))")
  case None
  then show ?thesis by (auto simp: Document_add_def)
next
  case (Some i)
  have "set (take i (sentences d)) \<subseteq> set (sentences d)" by (rule set_take_subset)
  moreover have "set (drop i (sentences d)) \<subseteq> set (sentences d)" by (rule set_drop_subset)
  ultimately show ?thesis using Some by (auto simp: Document_add_def)
qed

lemma stm_inv_Document_add:
  assumes inv: "stm_inv st" and fresh: "state_id (store st s) \<notin> dom (state_id_map (doc st))"
    and s: "s < next_addr st"
  shows "stm_inv (st\<lparr>doc := snd (Document_add (store st) (doc st) s tip)\<rparr>)"
proof -
  have "doc_inv (store st) (snd (Document_add (store st) (doc st) s tip))"
    using inv fresh by (intro doc_inv_add) (simp_all add: stm_inv_def)
  moreover have "\<forall>a\<in>set (sentences (snd (Document_add (store st) (doc st) s tip))). a < next_addr st"
    using set_Document_add [of "store st" "doc st" s tip] inv s by (auto simp: stm_inv_def)
  ultimately show ?thesis by (simp add: stm_inv_def)
qed

lemma shape_set_processing: "region (set_processing x) = region x \<and> state_id (set_processing x) = state_id x"
  by (simp add: set_processing_def)

lemma shape_set_error: "region (set_error loc msg x) = region x \<and> state_id (set_error loc msg x) = state_id x"
  by (simp add: set_error_def)

lemma shape_set_processed: "region (set_processed x) = region x \<and> state_id (set_processed x) = state_id x"
  by (simp add: set_processed_def)

lemma shape_set_axiom: "region (set_axiom x) = region x \<and> state_id (set_axiom x) = state_id x"
  by (simp add: set_axiom_def)

lemma stm_inv_forward_one_on_res_ok:
  assumes inv: "stm_inv st" and fresh: "new_sid \<notin> dom (state_id_map (doc st))"
  shows "stm_inv (snd (forward_one_on_res sregion (AddOk new_sid next_sid msg) st))"
proof -
  define s where "s = next_addr st"
  define st1 where "st1 = snd (new_sentence sregion new_sid st)"
  have ns: "new_sentence sregion new_sid st = (s, st1)"
    by (simp add: new_sentence_def s_def st1_def)
  have inv1: "stm_inv st1" unfolding st1_def using inv by (rule stm_inv_new_sentence)
  have f1: "state_id (store st1 s) \<notin> dom (state_id_map (doc st1))"
    using fresh by (simp add: new_sentence_def Sentence_def s_def st1_def)
  have s1: "s < next_addr st1" by (simp add: new_sentence_def s_def st1_def)
  obtain e d' where r: "Document_add (store st1) (doc st1) s (tip_sentence st1) = (e, d')"
    by (cases "Document_add (store st1) (doc st1) s (tip_sentence st1)") auto
  from stm_inv_Document_add [OF inv1 f1 s1, of "tip_sentence st1"] r
  have inv2: "stm_inv (st1\<lparr>doc := d'\<rparr>)" by simp
  define st3 where "st3 = handle_action (ShowMessage msg ''info'')
                (update_sentence s set_processing (st1\<lparr>doc := d'\<rparr>))"
  have inv3: "stm_inv st3"
    unfolding st3_def using inv2
    by (intro stm_inv_simple stm_inv_update_sentence shape_set_processing)
  show ?thesis
  proof (cases e)
    case (Some err)
    with r ns inv2 show ?thesis
      by (simp add: forward_one_on_res_def forward_one_on_res_body_def stm_inv_simple)
  next
    case None
    have "forward_one_on_res_body sregion (AddOk new_sid next_sid msg) st =
        (if truthy next_sid
         then (case state_id_map (doc st3) (the next_sid) of
                 None \<Rightarrow> (Some KeyError, st3)
               | Some t \<Rightarrow> (None, st3\<lparr>tip_sentence := Some t\<rparr>))
         else (None, st3\<lparr>tip_sentence := None\<rparr>))"
      using None r ns unfolding st3_def by (simp add: forward_one_on_res_body_def Let_def)
    then show ?thesis using inv3
      by (auto simp: forward_one_on_res_def stm_inv_simple stm_inv_fields split: option.splits)
  qed
qed

lemma stm_inv_forward_one_on_res_error:
  assumes inv: "stm_inv st"
  shows "stm_inv (snd (forward_one_on_res sregion (AddError loc msg) st))"
proof -
  define s where "s = next_addr (discard_scheduled_tasks st)"
  define st1 where "st1 = snd (new_sentence sregion 0 (discard_scheduled_tasks st))"
  have ns: "new_sentence sregion 0 (discard_scheduled_tasks st) = (s, st1)"
    by (simp add: new_sentence_def s_def st1_def)
  have "stm_inv st1" unfolding st1_def using inv by (intro stm_inv_new_sentence stm_inv_simple)
  then have "stm_inv (update_sentence s (set_error loc msg) (st1\<lparr>failed_sentence := Some s\<rparr>))"
    by (intro stm_inv_update_sentence shape_set_error stm_inv_fields)
  then show ?thesis using ns
    by (simp add: forward_one_on_res_def forward_one_on_res_body_def stm_inv_simple)
qed

lemma stm_inv_forward_one_task: "stm_inv st \<Longrightarrow> stm_inv (forward_one_task r st)"
  by (simp add: forward_one_task_def Let_def stm_inv_simple stm_inv_clear_failed_sentence)

lemma stm_inv_init: "stm_inv st \<Longrightarrow> stm_inv (snd (init_on_res res (init_task st)))"
  by (cases res) (simp_all add: init_on_res_def init_task_def stm_inv_simple stm_inv_fields)

lemma stm_inv_backward_before_index_on_res:
  assumes inv: "stm_inv st"
  shows "stm_inv (snd (backward_before_index_on_res index res st))"
proof (cases res)
  case (EditAtOk focused q)
  show ?thesis
  proof (cases focused)
    case False
    let ?st1 = "unhighlight_all (py_slice (sentences (doc st)) index None) st"
    have inv1: "stm_inv ?st1" using inv by (rule stm_inv_unhighlight_all)
    from stm_inv_remove_by_index [OF inv1, of index None] obtain d' where
      d': "Document_remove_by_index (store ?st1) (doc ?st1) index None = (None, d')"
        "stm_inv (?st1\<lparr>doc := d'\<rparr>)" by blast
    then have "stm_inv (done_cb (?st1\<lparr>doc := d', tip_sentence := None\<rparr>))"
      by (intro stm_inv_simple) (simp add: stm_inv_def)
    with d'(1) EditAtOk False show ?thesis
      by (simp add: backward_before_index_on_res_def Let_def)
  next
    case True
    show ?thesis
    proof (cases "case q of None \<Rightarrow> None | Some k \<Rightarrow> state_id_map (doc st) k")
      case None
      with EditAtOk True inv show ?thesis by (simp add: backward_before_index_on_res_def)
    next
      case (Some s)
      then obtain k where k: "q = Some k" "state_id_map (doc st) k = Some s"
        by (cases q) auto
      from on_res_focused_ok [OF inv k(2), of index] obtain qi d' where
        qi: "index_of s (sentences (doc st)) = Some qi"
        and rm: "Document_remove_by_index
            (store (unhighlight_all (py_slice (sentences (doc st)) index (Some (Suc qi))) st))
            (doc st) index (Some (Suc qi)) = (None, d')"
        and r: "backward_before_index_on_res index (EditAtOk True (Some k)) st =
             (case py_nth (sentences d') (int index - 1) of
                None \<Rightarrow> (Raised IndexError,
                  (unhighlight_all (py_slice (sentences (doc st)) index (Some (Suc qi))) st)\<lparr>doc := d'\<rparr>)
              | Some t \<Rightarrow> (Done, done_cb
                  ((unhighlight_all (py_slice (sentences (doc st)) index (Some (Suc qi))) st)
                     \<lparr>doc := d', tip_sentence := Some t\<rparr>)))" by blast
      let ?st1 = "unhighlight_all (py_slice (sentences (doc st)) index (Some (Suc qi))) st"
      have inv1: "stm_inv ?st1" using inv by (rule stm_inv_unhighlight_all)
      from stm_inv_remove_by_index [OF inv1, of index "Some (Suc qi)"] rm
      have i2: "stm_inv (?st1\<lparr>doc := d'\<rparr>)" by (simp add: doc_unhighlight_all)
      then have i3: "\<And>t. stm_inv (done_cb (?st1\<lparr>doc := d', tip_sentence := Some t\<rparr>))"
        by (intro stm_inv_simple) (simp add: stm_inv_def)
      show ?thesis using r i2 i3 EditAtOk True k
        by (simp split: option.splits)
    qed
  qed
next
  case (EditAtError loc sid msg)
  have i1: "stm_inv (handle_action (ShowMessage msg ''error'') st)"
    using inv by (rule stm_inv_simple)
  show ?thesis using EditAtError i1
    by (simp add: backward_before_index_on_res_def Let_def stm_inv_backward_before_index
        split: option.splits)
qed

lemma stm_inv_on_lost_cb: "stm_inv (on_lost_cb st)"
  by (simp add: on_lost_cb_def Let_def stm_inv_def done_cb_def handle_action_def
      doc_inv_clear) (simp add: Document_clear_def)

lemma stm_inv_FeedbackHandler_call:
  "stm_inv st \<Longrightarrow> stm_inv (snd (FeedbackHandler_call fb st))"
  by (cases "content fb")
     (auto simp: FeedbackHandler_call_def Let_def on_error_msg_def on_message_def
        on_processed_def on_added_axiom_def
        intro!: stm_inv_simple stm_inv_update_sentence shape_set_error shape_set_processed
          shape_set_axiom
        split: option.splits)

lemma stm_inv_stm_ready: "stm_inv stm_ready"
  unfolding stm_ready_def by (intro stm_inv_init stm_inv_new)

lemma stm_inv_add_ok:
  "stm_inv st \<Longrightarrow> state_id_map (doc st) new = None \<Longrightarrow> stm_inv (add_ok r new next st)"
  unfolding add_ok_def
  by (intro stm_inv_forward_one_on_res_ok stm_inv_forward_one_task)
     (simp_all add: domIff forward_one_task_def Let_def call_async_def doc_clear_failed_sentence)

lemma stm_inv_stm_A: "stm_inv stm_A"
  unfolding stm_A_def
proof (intro stm_inv_add_ok stm_inv_stm_ready)
  show "state_id_map (doc stm_ready) 2 = None" by code_simp
qed

lemma stm_inv_stm_AB: "stm_inv stm_AB"
  unfolding stm_AB_def
proof (intro stm_inv_add_ok stm_inv_stm_A)
  show "state_id_map (doc stm_A) 3 = None" by code_simp
qed

lemma stm_inv_stm_ABC: "stm_inv stm_ABC"
  unfolding stm_ABC_def
proof (intro stm_inv_add_ok stm_inv_stm_AB)
  show "state_id_map (doc stm_AB) 4 = None" by code_simp
qed

lemma stm_inv_coherent:
  "stm_inv st \<Longrightarrow> card (dom (state_id_map (doc st))) = length (sentences (doc st))"
  unfolding stm_inv_def by (blast intro: doc_inv_card)

subsection \<open>The claims about the STM\<close>

text \<open>
  Claim C2. When every EditAt error reports a state id of a sentence that stands strictly
  before the predecessor of the current index, the indices of the retried calls are the
  reported positions plus one, no index occurs twice among the calls, and there are at most
  as many retries as the Document has sentences. A chain of such errors only is therefore
  no longer than the Document, and it leaves one request in flight, at the last index.
\<close>

theorem rollback_retry_convergence:
  assumes "valid_reports (doc st) index rs"
  shows "length (fst (edit_at_chain index rs st)) \<le> length (sentences (doc st)) \<and>
         distinct (index # fst (edit_at_chain index rs st)) \<and>
         fst (edit_at_chain index rs st) = map Suc (reported_positions (doc st) rs) \<and>
         (list_all is_error rs \<longrightarrow>
            length rs \<le> length (sentences (doc st)) \<and>
            fst (snd (edit_at_chain index rs st)) =
              Pending (last (index # fst (edit_at_chain index rs st))))"
proof -
  let ?ts = "map Suc (reported_positions (doc st) rs)"
  have eq: "fst (edit_at_chain index rs st) = ?ts" using assms by (rule chain_indices)
  have b: "\<forall>t\<in>set ?ts. 0 < t \<and> t < index \<and> t \<le> length (sentences (doc st))"
    using assms by (rule targets_bounds)
  have d: "distinct ?ts" using assms by (rule targets_distinct)
  have len: "length ?ts \<le> length (sentences (doc st))"
    using d b by (intro bounded_distinct_length) auto
  have d2: "distinct (index # ?ts)" using d b by auto
  have all: "list_all is_error rs \<longrightarrow>
            length rs \<le> length (sentences (doc st)) \<and>
            fst (snd (edit_at_chain index rs st)) =
              Pending (last (index # fst (edit_at_chain index rs st)))"
  proof
    assume e: "list_all is_error rs"
    from chain_all_errors [OF assms e] eq len
    show "length rs \<le> length (sentences (doc st)) \<and>
            fst (snd (edit_at_chain index rs st)) =
              Pending (last (index # fst (edit_at_chain index rs st)))" by simp
  qed
  show ?thesis using eq len d2 all by simp
qed

theorem rollback_retry_convergence_witness:
  "fst (edit_at_chain 3 [EditAtError None 3 ''no'', EditAtError None 2 ''no''] stm_ABC) = [2, 1] \<and>
   length (sentences (doc stm_ABC)) = 3 \<and>
   fst (snd (edit_at_chain 3 [EditAtError None 3 ''no'', EditAtError None 2 ''no''] stm_ABC)) =
     Pending 1"
proof -
  let ?rs = "[EditAtError None 3 ''no'', EditAtError None 2 ''no'']"
  have v: "valid_reports (doc stm_ABC) 3 ?rs" by code_simp
  have e: "list_all is_error ?rs" by simp
  have p: "map Suc (reported_positions (doc stm_ABC) ?rs) = [2, 1]" by code_simp
  have l: "length (sentences (doc stm_ABC)) = 3" by code_simp
  from rollback_retry_convergence [OF v] e p l show ?thesis by simp
qed

text \<open>
  Claim C3, at index 0. The handler sets the tip to \<open>sentences[index - 1]\<close>, which for
  index 0 is Python's \<open>sentences[-1]\<close>. With the qed state id 3 of the second of three
  sentences, the tip becomes the last remaining sentence and the next predecessor is its
  state id 4, not the initial state id 1; with the qed state id 4 of the last sentence the
  Document becomes empty, the handler raises IndexError and \<open>done\<close> is not called.
  For an index of at least 1, \<open>focused_rollback_postcondition\<close> above gives the
  postcondition.
\<close>

theorem focused_rollback_at_index_zero:
  "fst (rollback_zero 3) = Done \<and>
   sentences (doc (snd (rollback_zero 3))) = [2] \<and>
   tip_sentence (snd (rollback_zero 3)) = Some 2 \<and>
   tip_state_id (snd (rollback_zero 3)) = Some 4 \<and>
   init_state_id (snd (rollback_zero 3)) = Some 1 \<and>
   fst (rollback_zero 4) = Raised IndexError \<and>
   sentences (doc (snd (rollback_zero 4))) = [] \<and>
   task_done (snd (rollback_zero 4)) = task_done stm_ABC"
  by code_simp

text \<open>
  The predecessor of the next forward command after a successful Add exchange in a
  well-formed state: it is the response's next state id when that is present and not 0, and
  it is the response's new state id when the next state id is absent or 0 and the new
  sentence was appended last, the tip having been absent or the last sentence. In general
  it is the state id of the tip if a tip is set, else that of the last sentence if the
  Document is not empty, else the initial state id.
\<close>

lemma tip_consistency_when_appended:
  assumes inv: "stm_inv st"
    and ok: "forward_one_on_res sregion (AddOk new_sid next_sid msg) st = (None, st')"
  shows "(truthy next_sid \<longrightarrow> tip_state_id st' = next_sid) \<and>
         (\<not> truthy next_sid \<and>
          (tip_sentence st = None \<or> tip_sentence st = Some (last (sentences (doc st)))) \<longrightarrow>
            tip_state_id st' = Some new_sid) \<and>
         sent (forward_one_task r st') =
           sent st' @ [AddReq (command r) (- 1) (tip_state_id st') False] \<and>
         tip_state_id st' =
           (case tip_sentence st' of
              Some t \<Rightarrow> Some (state_id (store st' t))
            | None \<Rightarrow>
                if sentences (doc st') \<noteq> []
                then Some (state_id (store st' (last (sentences (doc st')))))
                else init_state_id st')"
proof -
  let ?s = "next_addr st"
  let ?xs = "sentences (doc st)"
  from forward_ok_shape [OF ok] obtain i where
    i: "(case tip_sentence st of
           Some t \<Rightarrow> map_option Suc (index_of t ?xs)
         | None \<Rightarrow> Some (length ?xs)) = Some i"
    and xs': "sentences (doc st') = take i ?xs @ [?s] @ drop i ?xs"
    and sm': "state_id_map (doc st') = (state_id_map (doc st))(new_sid \<mapsto> ?s)"
    and h': "store st' = (store st)(?s := \<lparr>region = sregion, state_id = new_sid,
                flag = Some Processing\<rparr>)"
    and tip1: "truthy next_sid \<longrightarrow>
             (\<exists>t. tip_sentence st' = Some t \<and> state_id_map (doc st') (the next_sid) = Some t)"
    and tip2: "\<not> truthy next_sid \<longrightarrow> tip_sentence st' = None"
    by blast
  have sm: "sm_inv (store st) (set ?xs) (state_id_map (doc st))" and dx: "distinct ?xs"
    and fresh: "\<forall>s\<in>set ?xs. s < ?s"
    using inv by (simp_all add: stm_inv_def doc_inv_def)
  have a: "truthy next_sid \<longrightarrow> tip_state_id st' = next_sid"
  proof
    assume t: "truthy next_sid"
    then obtain n where n: "next_sid = Some n" by (cases next_sid) (auto simp: truthy_def)
    from t tip1 n obtain t where tt: "tip_sentence st' = Some t"
      "state_id_map (doc st') n = Some t" by auto
    have "state_id (store st' t) = n"
    proof (cases "n = new_sid")
      case True
      with tt sm' have "t = ?s" by simp
      with True h' show ?thesis by simp
    next
      case False
      with tt sm' have old: "state_id_map (doc st) n = Some t" by simp
      with sm have ts: "t \<in> set ?xs \<and> state_id (store st t) = n" by (rule sm_invD2)
      with fresh have "t \<noteq> ?s" by auto
      with h' ts show ?thesis by simp
    qed
    with tt n show "tip_state_id st' = next_sid" by (simp add: tip_state_id_def)
  qed
  have b: "\<not> truthy next_sid \<and>
          (tip_sentence st = None \<or> tip_sentence st = Some (last ?xs)) \<longrightarrow>
            tip_state_id st' = Some new_sid"
  proof
    assume c: "\<not> truthy next_sid \<and> (tip_sentence st = None \<or> tip_sentence st = Some (last ?xs))"
    have "i = length ?xs"
    proof (cases "tip_sentence st")
      case None
      with i show ?thesis by simp
    next
      case (Some t)
      with c have t: "t = last ?xs" by simp
      have ne: "?xs \<noteq> []" using i Some by auto
      from index_of_last [OF dx ne] i Some t ne show ?thesis by simp
    qed
    with xs' have "sentences (doc st') = ?xs @ [?s]" by simp
    moreover from c tip2 have "tip_sentence st' = None" by simp
    ultimately show "tip_state_id st' = Some new_sid"
      using h' by (simp add: tip_state_id_def Document_bool_def)
  qed
  have c: "sent (forward_one_task r st') =
           sent st' @ [AddReq (command r) (- 1) (tip_state_id st') False]"
    by (rule sent_forward_one_task)
  have d: "tip_state_id st' =
           (case tip_sentence st' of
              Some t \<Rightarrow> Some (state_id (store st' t))
            | None \<Rightarrow>
                if sentences (doc st') \<noteq> []
                then Some (state_id (store st' (last (sentences (doc st')))))
                else init_state_id st')"
    by (simp add: tip_state_id_def Document_bool_def)
  show ?thesis using a b c d by blast
qed

lemma tip_consistency_when_appended_example:
  "tip_state_id stm_AB = Some 3"
proof -
  have inv: "stm_inv (forward_one_task regionB stm_A)"
    using stm_inv_stm_A by (rule stm_inv_forward_one_task)
  have "fst (forward_one_on_res regionB (AddOk 3 None ''ok'') (forward_one_task regionB stm_A)) = None"
    by code_simp
  then have ok: "forward_one_on_res regionB (AddOk 3 None ''ok'') (forward_one_task regionB stm_A) =
      (None, stm_AB)"
    by (simp add: stm_AB_def add_ok_def prod_eq_iff)
  have t: "tip_sentence (forward_one_task regionB stm_A) = None" by code_simp
  from tip_consistency_when_appended [OF inv ok, of regionC] t show ?thesis by (simp add: truthy_def)
qed

text \<open>
  Claim C4, after a focused rollback. The rollback before position 1 of three sentences,
  answered as focused with qed state id 3, leaves the first and the third sentence and sets
  the tip to the first. The next Add, answered with the new state id 5 and no next state
  id, succeeds: \<open>add\<close> inserts the new sentence after the tip, between the two, and the
  handler resets the tip to absent. \<open>_tip_state_id\<close> then gives the state id 4 of the
  last sentence, and the following forward command sends its Add request with the
  predecessor 4, not with the new state id 5 of the response.
\<close>

theorem add_after_focused_rollback_predecessor:
  "sentences (doc stm_focused) = [0, 2] \<and>
   tip_sentence stm_focused = Some 0 \<and>
   fst add_after_focused = None \<and>
   sentences (doc (snd add_after_focused)) = [0, 3, 2] \<and>
   state_id (store (snd add_after_focused) 3) = 5 \<and>
   tip_sentence (snd add_after_focused) = None \<and>
   tip_state_id (snd add_after_focused) = Some 4 \<and>
   last (sent (forward_one_task regionD (snd add_after_focused))) =
     AddReq ''auto.'' (- 1) (Some 4) False"
  by code_simp

text \<open>
  Claim C5. A forward attempt whose Add response is an error discards the queued tasks,
  creates a sentence with state id 0 and the attempted region, makes it the failed
  sentence, marks it errored with the reported location and message, and leaves the
  Document as it was: the new sentence is not in the sequence.
\<close>

theorem add_failure_handling:
  assumes fresh: "\<forall>s\<in>set (sentences (doc st)). s < next_addr st"
  shows "case forward_one_on_res sregion (AddError loc msg) (forward_one_task sregion st) of
           (e, st') \<Rightarrow>
             e = None \<and>
             schedule_queue st' = [] \<and>
             scheduled_task_count st' =
               scheduled_task_count st - int (length (schedule_queue st)) \<and>
             failed_sentence st' = Some (next_addr st) \<and>
             store st' (next_addr st) =
               \<lparr>region = sregion, state_id = 0, flag = Some (Error loc msg)\<rparr> \<and>
             next_addr st \<notin> set (sentences (doc st')) \<and>
             doc st' = doc st \<and>
             tip_sentence st' = tip_sentence st"
  using fresh
  by (auto simp: forward_one_on_res_def forward_one_on_res_body_def forward_one_task_def
      new_sentence_def discard_scheduled_tasks_def update_sentence_def set_error_def
      Sentence_def done_cb_def call_async_def clear_failed_sentence_def Let_def
      split: option.splits)

theorem add_failure_handling_witness:
  "failed_sentence (snd (forward_one_on_res regionB (AddError None ''bad'')
      (forward_one_task regionB stm_A))) = Some 1 \<and>
   sentences (doc (snd (forward_one_on_res regionB (AddError None ''bad'')
      (forward_one_task regionB stm_A)))) = [0]"
proof -
  have n: "next_addr stm_A = 1" and s: "sentences (doc stm_A) = [0]" by code_simp+
  have f: "\<forall>s\<in>set (sentences (doc stm_A)). s < next_addr stm_A" using n s by simp
  from add_failure_handling [OF f, of regionB None "''bad''"] n s show ?thesis
    by (simp add: case_prod_beta)
qed

text \<open>
  Claim C6. When the Document is not empty and its last sentence has error status,
  \<open>forward\<close> and \<open>forward_many\<close> only hand an error message to the sink: the queue,
  the task counter, the requests sent, the Document, the tip and the failed sentence are
  unchanged.
\<close>

theorem forward_rejected:
  assumes "sentences (doc st) \<noteq> []" and "has_error (store st (last (sentences (doc st))))"
  shows "STM_forward sregion st = st\<lparr>actions := actions st @ [ShowMessage ''Fix the error first'' ''error'']\<rparr> \<and>
         STM_forward_many sregions st = st\<lparr>actions := actions st @ [ShowMessage ''Fix the error first.'' ''error'']\<rparr>"
  using assms
  by (simp add: STM_forward_def STM_forward_many_def last_has_error_def Document_bool_def
      handle_action_def)

theorem forward_rejected_witness:
  "schedule_queue (STM_forward regionB stm_A_err) = schedule_queue stm_A_err \<and>
   sent (STM_forward regionB stm_A_err) = sent stm_A_err \<and>
   doc (STM_forward regionB stm_A_err) = doc stm_A_err \<and>
   actions (STM_forward_many [regionB, regionC] stm_A_err) =
     actions stm_A_err @ [ShowMessage ''Fix the error first.'' ''error'']"
proof -
  have a: "sentences (doc stm_A_err) \<noteq> []" by code_simp
  have b: "has_error (store stm_A_err (last (sentences (doc stm_A_err))))" by code_simp
  from forward_rejected [OF a b, of regionB "[regionB, regionC]"] show ?thesis by simp
qed

text \<open>
  Claim C7. The feedback handler returns true exactly for the four recognised payloads.
  An error message, or a message of level error, marks the referenced sentence errored
  with the location and the message of the payload, or, without a referenced sentence,
  hands an error message to the sink; a message of another level is handed on at its
  level; processed and axiom payloads mark the referenced sentence and do nothing without
  one; any other payload changes nothing.
\<close>

theorem feedback_dispatch:
  "(fst (FeedbackHandler_call fb st) \<longleftrightarrow> content fb \<noteq> OtherContent) \<and>
   (\<forall>loc msg. content fb = ErrorMsg loc msg \<or> content fb = Message ''error'' loc msg \<longrightarrow>
      snd (FeedbackHandler_call fb st) =
        (case fb_sentence fb st of
           Some s \<Rightarrow> st\<lparr>store := (store st)(s := (store st s)\<lparr>flag := Some (Error loc msg)\<rparr>)\<rparr>
         | None \<Rightarrow> st\<lparr>actions := actions st @ [ShowMessage msg ''error'']\<rparr>)) \<and>
   (\<forall>level loc msg. content fb = Message level loc msg \<and> level \<noteq> ''error'' \<longrightarrow>
      snd (FeedbackHandler_call fb st) = st\<lparr>actions := actions st @ [ShowMessage msg level]\<rparr>) \<and>
   (content fb = Processed_fb \<longrightarrow>
      snd (FeedbackHandler_call fb st) =
        (case fb_sentence fb st of
           Some s \<Rightarrow> st\<lparr>store := (store st)(s := (store st s)\<lparr>flag := Some Processed\<rparr>)\<rparr>
         | None \<Rightarrow> st)) \<and>
   (content fb = AddedAxiom \<longrightarrow>
      snd (FeedbackHandler_call fb st) =
        (case fb_sentence fb st of
           Some s \<Rightarrow> st\<lparr>store := (store st)(s := (store st s)\<lparr>flag := Some Axiom\<rparr>)\<rparr>
         | None \<Rightarrow> st)) \<and>
   (content fb = OtherContent \<longrightarrow> snd (FeedbackHandler_call fb st) = st)"
  by (cases "content fb")
     (auto simp: FeedbackHandler_call_def fb_sentence_def on_error_msg_def on_message_def
       on_processed_def on_added_axiom_def update_sentence_def set_error_def set_processed_def
       set_axiom_def handle_action_def Let_def split: option.splits)

theorem feedback_dispatch_witness:
  "fst (FeedbackHandler_call \<lparr>fb_state_id = Some 2, content = ErrorMsg None ''boom''\<rparr> stm_A) \<and>
   flag (store (snd (FeedbackHandler_call
      \<lparr>fb_state_id = Some 2, content = ErrorMsg None ''boom''\<rparr> stm_A)) 0) =
     Some (Error None ''boom'')"
proof -
  let ?fb = "\<lparr>fb_state_id = Some 2, content = ErrorMsg None ''boom''\<rparr>"
  have s: "fb_sentence ?fb stm_A = Some 0" by code_simp
  from feedback_dispatch [of ?fb stm_A] s show ?thesis by simp
qed

text \<open>
  Claim C8. The connection-lost callback empties the queue, removes the highlight of every
  sentence of the Document, clears the sequence and both dictionaries, hands exactly one
  connection-lost action with the buffer number to the sink, calls \<open>done\<close> once and
  sends no request.
\<close>

theorem connection_lost_cleanup:
  "schedule_queue (on_lost_cb st) = [] \<and>
   sentences (doc (on_lost_cb st)) = [] \<and>
   state_id_map (doc (on_lost_cb st)) = Map.empty \<and>
   line_map (doc (on_lost_cb st)) = Map.empty \<and>
   (\<forall>s\<in>set (sentences (doc st)). flag (store (on_lost_cb st) s) = None) \<and>
   actions (on_lost_cb st) = actions st @ [ConnLost (bufnr st)] \<and>
   task_done (on_lost_cb st) = task_done st + 1 \<and>
   sent (on_lost_cb st) = sent st"
  by (simp add: on_lost_cb_def Let_def unhighlight_all_eq discard_scheduled_tasks_def
      Document_clear_def handle_action_def done_cb_def unhighlight_def)

theorem connection_lost_cleanup_witness:
  "sentences (doc (on_lost_cb stm_ABC)) = [] \<and>
   flag (store (on_lost_cb stm_ABC) 1) = None \<and>
   actions (on_lost_cb stm_ABC) = actions stm_ABC @ [ConnLost 7]"
proof -
  have s: "sentences (doc stm_ABC) = [0, 1, 2]" and b: "bufnr stm_ABC = 7" by code_simp+
  from connection_lost_cleanup [of stm_ABC] s b show ?thesis by simp
qed

text \<open>
  Claim C9. In a well-formed state each of the three dictionary lookups raises KeyError
  exactly when the state id is not a key: the lookup of a next state id other than 0 after
  a successful Add, where the keys include the new state id; the lookup of the qed state
  id of a focused EditAt response; and the lookup of the state id of an EditAt error. When
  the id is a key, the Add handler raises nothing, the focused handler ends in \<open>done\<close>
  or in the IndexError of the tip assignment, and the error handler retries.
\<close>

theorem state_id_lookups:
  assumes inv: "stm_inv st"
  shows "(n \<noteq> 0 \<and> (case tip_sentence st of None \<Rightarrow> True
                      | Some t \<Rightarrow> t \<in> set (sentences (doc st))) \<longrightarrow>
            (fst (forward_one_on_res sregion (AddOk new_sid (Some n) msg) st) = None \<longleftrightarrow>
               n = new_sid \<or> n \<in> dom (state_id_map (doc st))) \<and>
            (fst (forward_one_on_res sregion (AddOk new_sid (Some n) msg) st) = Some KeyError \<longleftrightarrow>
               \<not> (n = new_sid \<or> n \<in> dom (state_id_map (doc st))))) \<and>
         (fst (backward_before_index_on_res index (EditAtOk True (Some q)) st) = Raised KeyError \<longleftrightarrow>
            q \<notin> dom (state_id_map (doc st))) \<and>
         (q \<in> dom (state_id_map (doc st)) \<longrightarrow>
            fst (backward_before_index_on_res index (EditAtOk True (Some q)) st) = Done \<or>
            fst (backward_before_index_on_res index (EditAtOk True (Some q)) st) = Raised IndexError) \<and>
         (fst (backward_before_index_on_res index (EditAtError loc sid msg) st) = Raised KeyError \<longleftrightarrow>
            sid \<notin> dom (state_id_map (doc st))) \<and>
         (sid \<in> dom (state_id_map (doc st)) \<longrightarrow>
            (\<exists>i. fst (backward_before_index_on_res index (EditAtError loc sid msg) st) = Pending i))"
proof -
  have a: "n \<noteq> 0 \<and> (case tip_sentence st of None \<Rightarrow> True
                      | Some t \<Rightarrow> t \<in> set (sentences (doc st))) \<longrightarrow>
            (fst (forward_one_on_res sregion (AddOk new_sid (Some n) msg) st) = None \<longleftrightarrow>
               n = new_sid \<or> n \<in> dom (state_id_map (doc st))) \<and>
            (fst (forward_one_on_res sregion (AddOk new_sid (Some n) msg) st) = Some KeyError \<longleftrightarrow>
               \<not> (n = new_sid \<or> n \<in> dom (state_id_map (doc st))))"
  proof
    assume h: "n \<noteq> 0 \<and> (case tip_sentence st of None \<Rightarrow> True
                      | Some t \<Rightarrow> t \<in> set (sentences (doc st)))"
    then have "fst (forward_one_on_res sregion (AddOk new_sid (Some n) msg) st) =
           (if n = new_sid \<or> n \<in> dom (state_id_map (doc st)) then None else Some KeyError)"
      by (intro add_lookup_ok) simp_all
    then show "(fst (forward_one_on_res sregion (AddOk new_sid (Some n) msg) st) = None \<longleftrightarrow>
               n = new_sid \<or> n \<in> dom (state_id_map (doc st))) \<and>
            (fst (forward_one_on_res sregion (AddOk new_sid (Some n) msg) st) = Some KeyError \<longleftrightarrow>
               \<not> (n = new_sid \<or> n \<in> dom (state_id_map (doc st))))"
      by (simp split: if_splits)
  qed
  have b0: "q \<notin> dom (state_id_map (doc st)) \<Longrightarrow>
      fst (backward_before_index_on_res index (EditAtOk True (Some q)) st) = Raised KeyError"
    by (auto simp: backward_before_index_on_res_def dom_def)
  have b1: "q \<in> dom (state_id_map (doc st)) \<Longrightarrow>
            fst (backward_before_index_on_res index (EditAtOk True (Some q)) st) = Done \<or>
            fst (backward_before_index_on_res index (EditAtOk True (Some q)) st) = Raised IndexError"
  proof -
    assume "q \<in> dom (state_id_map (doc st))"
    then obtain s where k: "state_id_map (doc st) q = Some s" by auto
    from on_res_focused_ok [OF inv k, of index] show ?thesis
      by (auto split: option.splits)
  qed
  have b: "fst (backward_before_index_on_res index (EditAtOk True (Some q)) st) = Raised KeyError \<longleftrightarrow>
            q \<notin> dom (state_id_map (doc st))"
  proof (cases "q \<in> dom (state_id_map (doc st))")
    case True
    from b1 [OF True] True show ?thesis by auto
  next
    case False
    from b0 [OF False] False show ?thesis by simp
  qed
  have c0: "sid \<notin> dom (state_id_map (doc st)) \<Longrightarrow>
      fst (backward_before_index_on_res index (EditAtError loc sid msg) st) = Raised KeyError"
    by (auto simp: backward_before_index_on_res_def handle_action_def Let_def dom_def)
  have c1: "sid \<in> dom (state_id_map (doc st)) \<Longrightarrow>
      \<exists>i. fst (backward_before_index_on_res index (EditAtError loc sid msg) st) = Pending i"
  proof -
    assume "sid \<in> dom (state_id_map (doc st))"
    then obtain s where k: "state_id_map (doc st) sid = Some s" by auto
    from on_res_error_ok [OF inv k, of index loc msg] show ?thesis by blast
  qed
  have c: "fst (backward_before_index_on_res index (EditAtError loc sid msg) st) = Raised KeyError \<longleftrightarrow>
            sid \<notin> dom (state_id_map (doc st))"
  proof (cases "sid \<in> dom (state_id_map (doc st))")
    case True
    from c1 [OF True] True show ?thesis by auto
  next
    case False
    from c0 [OF False] False show ?thesis by simp
  qed
  show ?thesis using a b b1 c c1 by blast
qed

theorem state_id_lookups_witness:
  "fst (backward_before_index_on_res 2 (EditAtError None 9 ''no'') stm_ABC) = Raised KeyError \<and>
   fst (backward_before_index_on_res 1 (EditAtOk True (Some 3)) stm_ABC) \<noteq> Raised KeyError \<and>
   fst (forward_one_on_res regionD (AddOk 5 (Some 9) ''ok'') stm_ABC) = Some KeyError"
proof -
  have a: "9 \<notin> dom (state_id_map (doc stm_ABC))"
  proof -
    have "state_id_map (doc stm_ABC) 9 = None" by code_simp
    then show ?thesis by (simp add: domIff)
  qed
  have b: "3 \<in> dom (state_id_map (doc stm_ABC))"
  proof -
    have "state_id_map (doc stm_ABC) 3 = Some 1" by code_simp
    then show ?thesis by (simp add: domIff)
  qed
  have t: "tip_sentence stm_ABC = None" by code_simp
  from state_id_lookups [OF stm_inv_stm_ABC, where n = 9 and sregion = regionD and new_sid = 5
      and msg = "''ok''" and index = 1 and q = 3 and loc = None and sid = 9] a b t
  have 1: "fst (backward_before_index_on_res 1 (EditAtOk True (Some 3)) stm_ABC) \<noteq> Raised KeyError"
    and 2: "fst (forward_one_on_res regionD (AddOk 5 (Some 9) ''ok'') stm_ABC) = Some KeyError"
    by simp_all
  from state_id_lookups [OF stm_inv_stm_ABC, where n = 9 and sregion = regionD and new_sid = 5
      and msg = "''no''" and index = 2 and q = 3 and loc = None and sid = 9] a
  have 3: "fst (backward_before_index_on_res 2 (EditAtError None 9 ''no'') stm_ABC) = Raised KeyError"
    by simp
  from 1 2 3 show ?thesis by simp
qed

end
